theory Spec2Isabelle
  imports Main "HOL-Library.Multiset" "HOL-Library.Sublist" "HOL-Library.Monad_Syntax"
begin

section \<open>The decoration model of the line diff (autoedits/renderer/diff-utils.ts)\<close>

text \<open>
  Strings are lists of characters, one \<^typ>\<open>char\<close> per code unit. Line and column numbers
  are array indices, hence natural numbers. The \<open>id\<close> field of every entry is a fresh random
  identifier (\<open>uuid.v4()\<close>); no function of the engine reads it, and the model leaves it out.
\<close>

datatype changeType = ChUnchanged | ChInsert | ChDelete

record Range =
  startLine :: nat
  startCharacter :: nat
  endLine :: nat
  endCharacter :: nat

record LineChange =
  changeKind :: changeType
  changeText :: string
  originalRange :: Range
  modifiedRange :: Range

text \<open>
  The tagged union \<open>DecorationLineInfo\<close>:
  \<open>Unchanged originalLineNumber modifiedLineNumber text\<close>,
  \<open>Added modifiedLineNumber text\<close>, \<open>Removed originalLineNumber text\<close> and
  \<open>Modified originalLineNumber modifiedLineNumber oldText newText changes\<close>.
\<close>

datatype DecorationLineInfo =
    Unchanged nat nat string
  | Added nat string
  | Removed nat string
  | Modified nat nat string string "LineChange list"

record DecorationInfo =
  modifiedLines :: "DecorationLineInfo list"
  removedLines :: "DecorationLineInfo list"
  addedLines :: "DecorationLineInfo list"
  unchangedLines :: "DecorationLineInfo list"

subsection \<open>sortDiff\<close>

text \<open>
  The comparator of \<open>sortDiff\<close>: \<open>aLine\<close> is the original line number of a removed entry and
  the modified line number of every other entry; \<open>typeOrder\<close> is the table
  \<open>{removed: 0, added: 1, modified: 2, unchanged: 3}\<close> of the source.
\<close>

fun sortLine :: "DecorationLineInfo \<Rightarrow> nat" where
  "sortLine (Removed ol t) = ol"
| "sortLine (Unchanged ol ml t) = ml"
| "sortLine (Added ml t) = ml"
| "sortLine (Modified ol ml ot nt cs) = ml"

fun typeOrder :: "DecorationLineInfo \<Rightarrow> nat" where
  "typeOrder (Removed ol t) = 0"
| "typeOrder (Added ml t) = 1"
| "typeOrder (Modified ol ml ot nt cs) = 2"
| "typeOrder (Unchanged ol ml t) = 3"

definition sortDiffCompare :: "DecorationLineInfo \<Rightarrow> DecorationLineInfo \<Rightarrow> int" where
  "sortDiffCompare a b =
     (if sortLine a = sortLine b then int (typeOrder a) - int (typeOrder b)
      else int (sortLine a) - int (sortLine b))"

text \<open>
  \<open>Array.prototype.sort\<close> with a comparator is a stable sort: an element ends behind an
  element that followed it only when the comparator is positive for the two, so entries the
  comparator calls equal keep their order. The model is the insertion sort that inserts
  the elements from the last to the first, each in front of the first element it does not
  exceed.
\<close>

fun insertBy :: "('a \<Rightarrow> 'a \<Rightarrow> int) \<Rightarrow> 'a \<Rightarrow> 'a list \<Rightarrow> 'a list" where
  "insertBy cmp x [] = [x]"
| "insertBy cmp x (y # ys) = (if cmp x y \<le> 0 then x # y # ys else y # insertBy cmp x ys)"

definition sortBy :: "('a \<Rightarrow> 'a \<Rightarrow> int) \<Rightarrow> 'a list \<Rightarrow> 'a list" where
  "sortBy cmp xs = foldr (insertBy cmp) xs []"

definition sortDiff :: "DecorationInfo \<Rightarrow> DecorationLineInfo list" where
  "sortDiff diff =
     sortBy sortDiffCompare
       (addedLines diff @ modifiedLines diff @ unchangedLines diff @ removedLines diff)"

text \<open>The order the comparator induces: by line, and on one line by \<open>typeOrder\<close>.\<close>

definition sortDiffLe :: "DecorationLineInfo \<Rightarrow> DecorationLineInfo \<Rightarrow> bool" where
  "sortDiffLe a b =
     (sortLine a < sortLine b \<or> (sortLine a = sortLine b \<and> typeOrder a \<le> typeOrder b))"

subsection \<open>Splitting a text into lines\<close>

text \<open>
  \<open>String.prototype.split\<close> with a string separator cuts the text at every occurrence of the
  separator, scanning from the left without overlap; with the empty separator it cuts the
  text into its code units. \<open>Array.prototype.join\<close> puts the separator back between the
  pieces.
\<close>

function jsSplitNonempty :: "string \<Rightarrow> string \<Rightarrow> string list" where
  "jsSplitNonempty sep [] = [[]]"
| "jsSplitNonempty sep (c # cs) =
     (if sep \<noteq> [] \<and> prefix sep (c # cs)
      then [] # jsSplitNonempty sep (drop (length sep) (c # cs))
      else (case jsSplitNonempty sep cs of
              [] \<Rightarrow> [[c]]
            | p # ps \<Rightarrow> (c # p) # ps))"
  by pat_completeness auto
termination
  by (relation "measure (\<lambda>(sep, s). length s)") (auto simp: neq_Nil_conv)

definition jsSplit :: "string \<Rightarrow> string \<Rightarrow> string list" where
  "jsSplit sep s = (if sep = [] then map (\<lambda>c. [c]) s else jsSplitNonempty sep s)"

fun jsJoin :: "string \<Rightarrow> string list \<Rightarrow> string" where
  "jsJoin sep [] = []"
| "jsJoin sep [x] = x"
| "jsJoin sep (x # y # ys) = x @ sep @ jsJoin sep (y # ys)"

text \<open>
  Modelled from the spec: \<open>getNewLineChar\<close> of \<open>completions/text-processing\<close> is not among
  the sources. The spec has the engine split a text "using the dominant newline style
  detected in the text", falling back to a line feed: the first line break of the text,
  CR LF or LF, decides. The functions below take the detector as the parameter \<open>nl\<close>;
  this definition is the instance the examples run.
\<close>

fun getNewLineChar :: "string \<Rightarrow> string" where
  "getNewLineChar [] = [CHR 0x0A]"
| "getNewLineChar (c # cs) =
     (if c = CHR 0x0A then [CHR 0x0A]
      else if c = CHR 0x0D \<and> (case cs of d # ds \<Rightarrow> d = CHR 0x0A | [] \<Rightarrow> False)
           then [CHR 0x0D, CHR 0x0A]
      else getNewLineChar cs)"

subsection \<open>The line diff\<close>

text \<open>
  \<open>diff\<close> is the function of the package \<open>fast-myers-diff\<close>: for two sequences it yields
  hunks \<open>(sx, ex, sy, ey)\<close>, each saying that \<open>xs[sx..ex)\<close> is replaced by \<open>ys[sy..ey)\<close>.
  The engine takes it as the parameter \<open>d\<close>. Reading an array past its end gives
  \<open>undefined\<close> in the source; \<open>jsNth\<close> returns \<open>None\<close> there.
\<close>

type_synonym hunk = "nat \<times> nat \<times> nat \<times> nat"

type_synonym differ = "string list \<Rightarrow> string list \<Rightarrow> hunk list"

text \<open>A regular expression with the \<open>g\<close> flag, by what \<open>line.match(regex) || []\<close> returns.\<close>

type_synonym regexp = "string \<Rightarrow> string list"

definition jsNth :: "'a list \<Rightarrow> nat \<Rightarrow> 'a option" where
  "jsNth xs i = (if i < length xs then Some (xs ! i) else None)"


subsection \<open>Chunks of a line\<close>

text \<open>
  The character classes of the regular expressions, on code units below 256:
  whitespace (class \<open>s\<close>) is tab, line feed, vertical tab, form feed, carriage return,
  space and the no-break space; word characters (class \<open>w\<close>) are letters, digits and the
  underscore; the dot matches every code unit but a line terminator.
\<close>

definition isWhitespace :: "char \<Rightarrow> bool" where
  "isWhitespace c = (of_char c \<in> {9, 10, 11, 12, 13, 32, 160 :: nat})"

definition isWordChar :: "char \<Rightarrow> bool" where
  "isWordChar c =
     (let n = (of_char c :: nat)
      in (48 \<le> n \<and> n \<le> 57) \<or> (65 \<le> n \<and> n \<le> 90) \<or> n = 95 \<or> (97 \<le> n \<and> n \<le> 122))"

definition isLineTerminator :: "char \<Rightarrow> bool" where
  "isLineTerminator c = (c = CHR 0x0A \<or> c = CHR 0x0D)"

text \<open>\<open>WORDS_AND_PUNCTUATION_REGEX\<close>, the alternatives \<open>w+\<close>, \<open>s+\<close>, \<open>W\<close> of the source in
  their order: a run of word characters, else a run of whitespace, else one other
  character.\<close>

function WORDS_AND_PUNCTUATION_REGEX :: regexp where
  "WORDS_AND_PUNCTUATION_REGEX [] = []"
| "WORDS_AND_PUNCTUATION_REGEX (c # cs) =
     (if isWordChar c
      then (c # takeWhile isWordChar cs) # WORDS_AND_PUNCTUATION_REGEX (dropWhile isWordChar cs)
      else if isWhitespace c
      then (c # takeWhile isWhitespace cs) # WORDS_AND_PUNCTUATION_REGEX (dropWhile isWhitespace cs)
      else [c] # WORDS_AND_PUNCTUATION_REGEX cs)"
  by pat_completeness auto
termination
  by (relation "measure length") (auto simp: length_dropWhile_le less_Suc_eq_le)

text \<open>\<open>CHARACTER_REGEX = /./g\<close>: every code unit the dot matches, one by one.\<close>

fun CHARACTER_REGEX :: regexp where
  "CHARACTER_REGEX [] = []"
| "CHARACTER_REGEX (c # cs) =
     (if isLineTerminator c then CHARACTER_REGEX cs else [c] # CHARACTER_REGEX cs)"

definition splitLineIntoChunks :: "string \<Rightarrow> regexp \<Rightarrow> string list" where
  "splitLineIntoChunks line chunkRegex = chunkRegex line"

subsection \<open>Changes inside a modified line\<close>

definition mkRange :: "nat \<Rightarrow> nat \<Rightarrow> nat \<Rightarrow> nat \<Rightarrow> Range" where
  "mkRange sl sc el ec = \<lparr>startLine = sl, startCharacter = sc, endLine = el, endCharacter = ec\<rparr>"

definition mkChange :: "changeType \<Rightarrow> string \<Rightarrow> Range \<Rightarrow> Range \<Rightarrow> LineChange" where
  "mkChange k t r1 r2 = \<lparr>changeKind = k, changeText = t, originalRange = r1, modifiedRange = r2\<rparr>"

text \<open>The variables of \<open>computeLineChanges\<close> that its loops update.\<close>

record lineState =
  changes :: "LineChange list"
  originalOffset :: nat
  modifiedOffset :: nat
  oldIndex :: nat
  newIndex :: nat

text \<open>
  One round of the loop of \<open>pushUnchangedUntil\<close>: a chunk that is the empty string or
  \<open>undefined\<close> is skipped; otherwise it extends the last change when that one is
  unchanged, and is pushed as a new change when not.
\<close>

definition pushUnchangedChunk :: "string list \<Rightarrow> nat \<Rightarrow> nat \<Rightarrow> lineState \<Rightarrow> lineState" where
  "pushUnchangedChunk oldChunks originalLineNumber modifiedLineNumber st =
     (case jsNth oldChunks (oldIndex st) of
        None \<Rightarrow> st\<lparr>oldIndex := Suc (oldIndex st), newIndex := Suc (newIndex st)\<rparr>
      | Some unchangedText \<Rightarrow>
          if unchangedText = [] then st\<lparr>oldIndex := Suc (oldIndex st), newIndex := Suc (newIndex st)\<rparr>
          else
            let startOriginal = originalOffset st;
                startModified = modifiedOffset st;
                len = length unchangedText;
                originalOffset' = originalOffset st + len;
                modifiedOffset' = modifiedOffset st + len;
                changes' =
                  (if changes st \<noteq> [] \<and> changeKind (last (changes st)) = ChUnchanged
                   then
                     let previousChange = last (changes st)
                     in butlast (changes st) @
                        [previousChange\<lparr>
                           changeText := changeText previousChange @ unchangedText,
                           originalRange :=
                             mkRange (startLine (originalRange previousChange))
                               (startCharacter (originalRange previousChange))
                               originalLineNumber originalOffset',
                           modifiedRange :=
                             mkRange (startLine (modifiedRange previousChange))
                               (startCharacter (modifiedRange previousChange))
                               modifiedLineNumber modifiedOffset'\<rparr>]
                   else
                     changes st @
                     [mkChange ChUnchanged unchangedText
                        (mkRange originalLineNumber startOriginal originalLineNumber originalOffset')
                        (mkRange modifiedLineNumber startModified modifiedLineNumber modifiedOffset')])
            in st\<lparr>changes := changes', originalOffset := originalOffset',
                  modifiedOffset := modifiedOffset',
                  oldIndex := Suc (oldIndex st), newIndex := Suc (newIndex st)\<rparr>)"

function pushUnchangedUntil ::
  "string list \<Rightarrow> nat \<Rightarrow> nat \<Rightarrow> nat \<Rightarrow> nat \<Rightarrow> lineState \<Rightarrow> lineState" where
  "pushUnchangedUntil oldChunks originalLineNumber modifiedLineNumber targetOldIndex targetNewIndex st =
     (if oldIndex st < targetOldIndex \<and> newIndex st < targetNewIndex
      then pushUnchangedUntil oldChunks originalLineNumber modifiedLineNumber
             targetOldIndex targetNewIndex
             (pushUnchangedChunk oldChunks originalLineNumber modifiedLineNumber st)
      else st)"
  by pat_completeness auto
termination
  by (relation "measure (\<lambda>(cs, ol, ml, tOld, tNew, st). tOld - oldIndex st)")
     (auto simp: pushUnchangedChunk_def Let_def split: option.splits)


declare pushUnchangedUntil.simps [simp del]

text \<open>The four blocks of a hunk that push a change and advance the offsets.\<close>

definition pushUnchangedText :: "nat \<Rightarrow> nat \<Rightarrow> string \<Rightarrow> lineState \<Rightarrow> lineState" where
  "pushUnchangedText originalLineNumber modifiedLineNumber unchangedText st =
     (let startOriginal = originalOffset st;
          startModified = modifiedOffset st;
          originalOffset' = originalOffset st + length unchangedText;
          modifiedOffset' = modifiedOffset st + length unchangedText
      in st\<lparr>changes := changes st @
                [mkChange ChUnchanged unchangedText
                   (mkRange originalLineNumber startOriginal originalLineNumber originalOffset')
                   (mkRange modifiedLineNumber startModified modifiedLineNumber modifiedOffset')],
             originalOffset := originalOffset', modifiedOffset := modifiedOffset'\<rparr>)"

definition pushDeletion :: "nat \<Rightarrow> nat \<Rightarrow> string \<Rightarrow> lineState \<Rightarrow> lineState" where
  "pushDeletion originalLineNumber modifiedLineNumber deletionCore st =
     (let startOriginal = originalOffset st;
          startModified = modifiedOffset st;
          originalOffset' = originalOffset st + length deletionCore
      in st\<lparr>changes := changes st @
                [mkChange ChDelete deletionCore
                   (mkRange originalLineNumber startOriginal originalLineNumber originalOffset')
                   (mkRange modifiedLineNumber startModified modifiedLineNumber startModified)],
             originalOffset := originalOffset'\<rparr>)"

definition pushInsertion :: "nat \<Rightarrow> nat \<Rightarrow> string \<Rightarrow> lineState \<Rightarrow> lineState" where
  "pushInsertion originalLineNumber modifiedLineNumber insertionCore st =
     (let startOriginal = originalOffset st;
          startModified = modifiedOffset st;
          modifiedOffset' = modifiedOffset st + length insertionCore
      in st\<lparr>changes := changes st @
                [mkChange ChInsert insertionCore
                   (mkRange originalLineNumber startOriginal originalLineNumber startOriginal)
                   (mkRange modifiedLineNumber startModified modifiedLineNumber modifiedOffset')],
             modifiedOffset := modifiedOffset'\<rparr>)"

text \<open>
  The two loops that measure the common whitespace: from the front of the deleted and the
  inserted text, and from their back without entering the prefix already found.
\<close>

fun commonWhitespace :: "string \<Rightarrow> string \<Rightarrow> nat" where
  "commonWhitespace (a # as) (b # bs) =
     (if a = b \<and> isWhitespace a then Suc (commonWhitespace as bs) else 0)"
| "commonWhitespace as bs = 0"

definition commonPrefixLength :: "string \<Rightarrow> string \<Rightarrow> nat" where
  "commonPrefixLength deletionText insertionText = commonWhitespace deletionText insertionText"

definition commonSuffixLength :: "nat \<Rightarrow> string \<Rightarrow> string \<Rightarrow> nat" where
  "commonSuffixLength prefixLength deletionText insertionText =
     commonWhitespace (rev (drop prefixLength deletionText)) (rev (drop prefixLength insertionText))"

definition jsSlice :: "'a list \<Rightarrow> nat \<Rightarrow> nat \<Rightarrow> 'a list" where
  "jsSlice xs a b = take (b - a) (drop a xs)"

definition applyChunkHunk ::
  "string list \<Rightarrow> string list \<Rightarrow> nat \<Rightarrow> nat \<Rightarrow> hunk \<Rightarrow> lineState \<Rightarrow> lineState" where
  "applyChunkHunk oldChunks newChunks originalLineNumber modifiedLineNumber h st =
     (case h of (oldStart, oldEnd, newStart, newEnd) \<Rightarrow>
        let st1 = pushUnchangedUntil oldChunks originalLineNumber modifiedLineNumber
                    oldStart newStart st;
            deletionText = concat (jsSlice oldChunks oldStart oldEnd);
            insertionText = concat (jsSlice newChunks newStart newEnd);
            st2 = st1\<lparr>oldIndex := oldEnd, newIndex := newEnd\<rparr>
        in if deletionText = [] \<and> insertionText = [] then st2
           else
             let prefixLength = commonPrefixLength deletionText insertionText;
                 suffixLength = commonSuffixLength prefixLength deletionText insertionText;
                 st3 = (if prefixLength > 0
                        then pushUnchangedText originalLineNumber modifiedLineNumber
                               (jsSlice deletionText 0 prefixLength) st2
                        else st2);
                 deletionCore = jsSlice deletionText prefixLength (length deletionText - suffixLength);
                 st4 = (if deletionCore \<noteq> []
                        then pushDeletion originalLineNumber modifiedLineNumber deletionCore st3
                        else st3);
                 insertionCore = jsSlice insertionText prefixLength (length insertionText - suffixLength);
                 st5 = (if insertionCore \<noteq> []
                        then pushInsertion originalLineNumber modifiedLineNumber insertionCore st4
                        else st4)
             in if suffixLength > 0
                then pushUnchangedText originalLineNumber modifiedLineNumber
                       (drop (length deletionText - suffixLength) deletionText) st5
                else st5)"

text \<open>The loop after the last hunk: every remaining chunk is pushed as a change of its own.\<close>

function pushRemaining ::
  "string list \<Rightarrow> string list \<Rightarrow> nat \<Rightarrow> nat \<Rightarrow> lineState \<Rightarrow> lineState" where
  "pushRemaining oldChunks newChunks originalLineNumber modifiedLineNumber st =
     (if oldIndex st < length oldChunks \<and> newIndex st < length newChunks
      then
        let unchangedText = oldChunks ! oldIndex st;
            st' = (if unchangedText \<noteq> []
                   then pushUnchangedText originalLineNumber modifiedLineNumber unchangedText st
                   else st)
        in pushRemaining oldChunks newChunks originalLineNumber modifiedLineNumber
             (st'\<lparr>oldIndex := Suc (oldIndex st), newIndex := Suc (newIndex st)\<rparr>)
      else st)"
  by pat_completeness auto
termination
  by (relation "measure (\<lambda>(oc, nc, ol, ml, st). length oc - oldIndex st)")
     (auto simp: pushUnchangedText_def Let_def)

declare pushRemaining.simps [simp del]

definition computeLineChanges ::
  "differ \<Rightarrow> string list \<Rightarrow> string list \<Rightarrow> nat \<Rightarrow> nat \<Rightarrow> LineChange list" where
  "computeLineChanges d oldChunks newChunks originalLineNumber modifiedLineNumber =
     (let chunkDiffs = d oldChunks newChunks;
          st0 = \<lparr>changes = [], originalOffset = 0, modifiedOffset = 0, oldIndex = 0, newIndex = 0\<rparr>;
          st1 = foldl (\<lambda>st h. applyChunkHunk oldChunks newChunks originalLineNumber
                                 modifiedLineNumber h st) st0 chunkDiffs
      in changes (pushRemaining oldChunks newChunks originalLineNumber modifiedLineNumber st1))"

definition getModifiedLineChanges ::
  "differ \<Rightarrow> nat \<Rightarrow> nat \<Rightarrow> string \<Rightarrow> string \<Rightarrow> regexp \<Rightarrow> LineChange list" where
  "getModifiedLineChanges d originalLineNumber modifiedLineNumber originalText modifiedText chunkRegex =
     (let oldChunks = splitLineIntoChunks originalText chunkRegex;
          newChunks = splitLineIntoChunks modifiedText chunkRegex
      in computeLineChanges d oldChunks newChunks originalLineNumber modifiedLineNumber)"

subsection \<open>The readability test of a change list\<close>

definition groupStep :: "LineChange list \<Rightarrow> LineChange \<Rightarrow> LineChange list" where
  "groupStep groupedChanges change =
     (if groupedChanges \<noteq> [] \<and> changeKind (last groupedChanges) = changeKind change
      then
        let currentGroup = last groupedChanges
        in butlast groupedChanges @
           [change\<lparr>
              changeText := changeText currentGroup @ changeText change,
              originalRange :=
                mkRange (startLine (originalRange currentGroup))
                  (startCharacter (originalRange currentGroup))
                  (endLine (originalRange change)) (endCharacter (originalRange change)),
              modifiedRange :=
                mkRange (startLine (modifiedRange currentGroup))
                  (startCharacter (modifiedRange currentGroup))
                  (endLine (modifiedRange change)) (endCharacter (modifiedRange change))\<rparr>]
      else groupedChanges @ [change])"

definition groupLineChanges :: "LineChange list \<Rightarrow> LineChange list" where
  "groupLineChanges cs = foldl groupStep [] cs"

text \<open>
  The loop of \<open>isSimpleLineDiff\<close> over the grouped changes; \<open>lastChange\<close> is the pair of the
  last type (\<open>None\<close> for \<open>null\<close>) and \<open>isReplacement\<close>, and the change is the last one when
  nothing follows it.
\<close>

fun simpleScan :: "changeType option \<times> bool \<Rightarrow> LineChange list \<Rightarrow> bool" where
  "simpleScan lastChange [] = True"
| "simpleScan (lastType, isReplacement) (incomingChange # rest) =
     (case lastType of
        None \<Rightarrow> simpleScan (Some (changeKind incomingChange), False) rest
      | Some lt \<Rightarrow>
          if isReplacement \<and> changeKind incomingChange \<noteq> ChUnchanged then False
          else if changeKind incomingChange = ChUnchanged
          then (if \<not> list_ex isWhitespace (changeText incomingChange) \<and> rest \<noteq> [] then False
                else simpleScan (Some ChUnchanged, False) rest)
          else simpleScan (Some (changeKind incomingChange), lt \<noteq> ChUnchanged) rest)"

definition isSimpleLineDiff :: "LineChange list \<Rightarrow> bool" where
  "isSimpleLineDiff cs =
     (if length cs \<le> 1 then True else simpleScan (None, False) (groupLineChanges cs))"

definition createModifiedLineInfo ::
  "differ \<Rightarrow> nat \<Rightarrow> nat \<Rightarrow> string \<Rightarrow> string \<Rightarrow> regexp \<Rightarrow> DecorationLineInfo" where
  "createModifiedLineInfo d originalLineNumber modifiedLineNumber originalText modifiedText chunkRegex =
     (let changes0 = getModifiedLineChanges d originalLineNumber modifiedLineNumber
                       originalText modifiedText CHARACTER_REGEX;
          changes1 = (if \<not> isSimpleLineDiff changes0
                      then getModifiedLineChanges d originalLineNumber modifiedLineNumber
                             originalText modifiedText chunkRegex
                      else changes0)
      in Modified originalLineNumber modifiedLineNumber originalText modifiedText changes1)"


subsection \<open>computeDiffOperations and getDecorationInfo\<close>

text \<open>
  The result is \<open>None\<close> for the runs in which the source reads a line past the end of its
  array: there it either stores \<open>undefined\<close> as the text of an entry or fails inside
  \<open>createModifiedLineInfo\<close>. No hunk that lies inside both arrays leads there. The arrays
  \<open>originalLines\<close> and \<open>modifiedLines\<close> of the source are \<open>origLines\<close> and \<open>modLines\<close> here.
\<close>

function unchangedWhile ::
  "string list \<Rightarrow> nat \<Rightarrow> nat \<Rightarrow> nat \<Rightarrow> nat \<Rightarrow> DecorationLineInfo list option" where
  "unchangedWhile modLines originalIndex modifiedIndex originalStop modifiedStop =
     (if originalIndex < originalStop \<and> modifiedIndex < modifiedStop
      then (case jsNth modLines modifiedIndex of
              None \<Rightarrow> None
            | Some t \<Rightarrow>
                map_option ((#) (Unchanged originalIndex modifiedIndex t))
                  (unchangedWhile modLines (Suc originalIndex) (Suc modifiedIndex)
                     originalStop modifiedStop))
      else Some [])"
  by pat_completeness auto
termination
  by (relation "measure (\<lambda>(ml, oi, mi, os, ms). os - oi)") auto

declare unchangedWhile.simps [simp del]

function modificationLoop ::
  "differ \<Rightarrow> regexp \<Rightarrow> string list \<Rightarrow> string list \<Rightarrow> nat \<Rightarrow> nat \<Rightarrow> nat \<Rightarrow> nat
     \<Rightarrow> DecorationLineInfo list option" where
  "modificationLoop d chunkRegex origLines modLines originalStart modifiedStart n i =
     (if i < n
      then (case jsNth origLines (originalStart + i) of
              None \<Rightarrow> None
            | Some originalLine \<Rightarrow>
               (case jsNth modLines (modifiedStart + i) of
                  None \<Rightarrow> None
                | Some modifiedLine \<Rightarrow>
                    map_option
                      ((#) (if originalLine \<noteq> modifiedLine
                            then createModifiedLineInfo d (originalStart + i) (modifiedStart + i)
                                   originalLine modifiedLine chunkRegex
                            else Unchanged (originalStart + i) (modifiedStart + i) modifiedLine))
                      (modificationLoop d chunkRegex origLines modLines
                         originalStart modifiedStart n (Suc i))))
      else Some [])"
  by pat_completeness auto
termination
  by (relation "measure (\<lambda>(d, rx, ol, ml, os, ms, n, i). n - i)") auto

declare modificationLoop.simps [simp del]

function removedLoop :: "string list \<Rightarrow> nat \<Rightarrow> nat \<Rightarrow> nat \<Rightarrow> DecorationLineInfo list option" where
  "removedLoop origLines originalStart numDeletions j =
     (if j < numDeletions
      then (case jsNth origLines (originalStart + j) of
              None \<Rightarrow> None
            | Some t \<Rightarrow>
                map_option ((#) (Removed (originalStart + j) t))
                  (removedLoop origLines originalStart numDeletions (Suc j)))
      else Some [])"
  by pat_completeness auto
termination
  by (relation "measure (\<lambda>(ol, os, n, j). n - j)") auto

declare removedLoop.simps [simp del]

function addedLoop :: "string list \<Rightarrow> nat \<Rightarrow> nat \<Rightarrow> nat \<Rightarrow> DecorationLineInfo list option" where
  "addedLoop modLines modifiedStart numInsertions j =
     (if j < numInsertions
      then (case jsNth modLines (modifiedStart + j) of
              None \<Rightarrow> None
            | Some t \<Rightarrow>
                map_option ((#) (Added (modifiedStart + j) t))
                  (addedLoop modLines modifiedStart numInsertions (Suc j)))
      else Some [])"
  by pat_completeness auto
termination
  by (relation "measure (\<lambda>(ml, ms, n, j). n - j)") auto

declare addedLoop.simps [simp del]

definition applyLineHunk ::
  "differ \<Rightarrow> regexp \<Rightarrow> string list \<Rightarrow> string list \<Rightarrow> hunk \<Rightarrow> DecorationLineInfo list option" where
  "applyLineHunk d chunkRegex origLines modLines h =
     (case h of (originalStart, originalEnd, modifiedStart, modifiedEnd) \<Rightarrow>
        let numDeletions = originalEnd - originalStart;
            numInsertions = modifiedEnd - modifiedStart;
            i = min numDeletions numInsertions
        in do {
             ms \<leftarrow> modificationLoop d chunkRegex origLines modLines
                     originalStart modifiedStart i 0;
             rs \<leftarrow> removedLoop origLines originalStart numDeletions i;
             as \<leftarrow> addedLoop modLines modifiedStart numInsertions i;
             Some (ms @ rs @ as)
           })"

fun hunkLoop ::
  "differ \<Rightarrow> regexp \<Rightarrow> string list \<Rightarrow> string list \<Rightarrow> nat \<Rightarrow> nat \<Rightarrow> hunk list
     \<Rightarrow> DecorationLineInfo list option" where
  "hunkLoop d chunkRegex origLines modLines originalIndex modifiedIndex [] =
     unchangedWhile modLines originalIndex modifiedIndex
       (length origLines) (length modLines)"
| "hunkLoop d chunkRegex origLines modLines originalIndex modifiedIndex (h # hs) =
     (case h of (originalStart, originalEnd, modifiedStart, modifiedEnd) \<Rightarrow>
        do {
          us \<leftarrow> unchangedWhile modLines originalIndex modifiedIndex originalStart modifiedStart;
          cs \<leftarrow> applyLineHunk d chunkRegex origLines modLines h;
          rest \<leftarrow> hunkLoop d chunkRegex origLines modLines originalEnd modifiedEnd hs;
          Some (us @ cs @ rest)
        })"

definition computeDiffOperations ::
  "differ \<Rightarrow> string list \<Rightarrow> string list \<Rightarrow> regexp \<Rightarrow> DecorationLineInfo list option" where
  "computeDiffOperations d origLines modLines chunkRegex =
     hunkLoop d chunkRegex origLines modLines 0 0 (d origLines modLines)"

fun pushLineInfo :: "DecorationInfo \<Rightarrow> DecorationLineInfo \<Rightarrow> DecorationInfo" where
  "pushLineInfo info (Unchanged ol ml t) =
     info\<lparr>unchangedLines := unchangedLines info @ [Unchanged ol ml t]\<rparr>"
| "pushLineInfo info (Added ml t) = info\<lparr>addedLines := addedLines info @ [Added ml t]\<rparr>"
| "pushLineInfo info (Removed ol t) = info\<lparr>removedLines := removedLines info @ [Removed ol t]\<rparr>"
| "pushLineInfo info (Modified ol ml ot nt cs) =
     info\<lparr>modifiedLines := modifiedLines info @ [Modified ol ml ot nt cs]\<rparr>"

definition emptyDecorationInfo :: DecorationInfo where
  "emptyDecorationInfo =
     \<lparr>modifiedLines = [], removedLines = [], addedLines = [], unchangedLines = []\<rparr>"

definition getDecorationInfo ::
  "differ \<Rightarrow> (string \<Rightarrow> string) \<Rightarrow> string \<Rightarrow> string \<Rightarrow> regexp \<Rightarrow> DecorationInfo option" where
  "getDecorationInfo d nl originalText modifiedText chunkRegex =
     (let origLines = jsSplit (nl originalText) originalText;
          modLines = jsSplit (nl modifiedText) modifiedText
      in map_option (foldl pushLineInfo emptyDecorationInfo)
           (computeDiffOperations d origLines modLines chunkRegex))"

subsection \<open>A differ to run the engine on examples\<close>

text \<open>
  Modelled from the spec: the package \<open>fast-myers-diff\<close> is not among the sources. The spec
  has it "compute a minimal edit script over the two line sequences (an LCS-style diff
  yielding a sequence of (origStart, origEnd, modStart, modEnd) replace/insert/delete
  hunks)". \<open>lcsDiff\<close> is such a differ: a shortest edit script, its neighbouring deletions
  and insertions gathered into one hunk. The theorems about the engine hold for every
  differ \<open>d\<close> that returns a correct script; \<open>lcsDiff\<close> is the one the examples run.
\<close>

datatype edit = Keep | Del | Ins

fun editCost :: "edit list \<Rightarrow> nat" where
  "editCost [] = 0"
| "editCost (Keep # es) = editCost es"
| "editCost (e # es) = Suc (editCost es)"

fun editScript :: "'a list \<Rightarrow> 'a list \<Rightarrow> edit list" where
  "editScript [] ys = map (\<lambda>_. Ins) ys"
| "editScript (x # xs) [] = map (\<lambda>_. Del) (x # xs)"
| "editScript (x # xs) (y # ys) =
     (if x = y then Keep # editScript xs ys
      else
        let a = editScript xs (y # ys); b = editScript (x # xs) ys
        in if editCost a \<le> editCost b then Del # a else Ins # b)"

fun scriptHunks :: "nat \<Rightarrow> nat \<Rightarrow> hunk option \<Rightarrow> edit list \<Rightarrow> hunk list" where
  "scriptHunks i j cur [] = (case cur of None \<Rightarrow> [] | Some h \<Rightarrow> [h])"
| "scriptHunks i j cur (Keep # es) =
     (case cur of None \<Rightarrow> scriptHunks (Suc i) (Suc j) None es
                | Some h \<Rightarrow> h # scriptHunks (Suc i) (Suc j) None es)"
| "scriptHunks i j cur (Del # es) =
     scriptHunks (Suc i) j
       (Some (case cur of None \<Rightarrow> (i, Suc i, j, j)
                        | Some (sx, ex, sy, ey) \<Rightarrow> (sx, Suc ex, sy, ey))) es"
| "scriptHunks i j cur (Ins # es) =
     scriptHunks i (Suc j)
       (Some (case cur of None \<Rightarrow> (i, i, j, Suc j)
                        | Some (sx, ex, sy, ey) \<Rightarrow> (sx, ex, sy, Suc ey))) es"

definition lcsDiff :: differ where
  "lcsDiff xs ys = scriptHunks 0 0 None (editScript xs ys)"

subsection \<open>Correct edit scripts and the two sides of a decoration\<close>

text \<open>
  A list of hunks is a correct script from position \<open>(i, j)\<close> on when the hunks come in
  order inside both sequences and the stretches between them, and after the last one,
  are the same on both sides. This is what the engine relies on from \<open>diff\<close>.
\<close>

fun validScript :: "'a list \<Rightarrow> 'a list \<Rightarrow> nat \<Rightarrow> nat \<Rightarrow> hunk list \<Rightarrow> bool" where
  "validScript xs ys i j [] = (i \<le> length xs \<and> j \<le> length ys \<and> drop i xs = drop j ys)"
| "validScript xs ys i j (h # hs) =
     (case h of (sx, ex, sy, ey) \<Rightarrow>
        i \<le> sx \<and> j \<le> sy \<and> sx \<le> ex \<and> ex \<le> length xs \<and> sy \<le> ey \<and> ey \<le> length ys \<and>
        jsSlice xs i sx = jsSlice ys j sy \<and> sx - i = sy - j \<and>
        validScript xs ys ex ey hs)"

text \<open>
  The original side of an entry is its original line number with the text the original
  had there; an added line has none. The modified side likewise.
\<close>

fun originalEntry :: "DecorationLineInfo \<Rightarrow> (nat \<times> string) list" where
  "originalEntry (Unchanged ol ml t) = [(ol, t)]"
| "originalEntry (Removed ol t) = [(ol, t)]"
| "originalEntry (Modified ol ml ot nt cs) = [(ol, ot)]"
| "originalEntry (Added ml t) = []"

fun modifiedEntry :: "DecorationLineInfo \<Rightarrow> (nat \<times> string) list" where
  "modifiedEntry (Unchanged ol ml t) = [(ml, t)]"
| "modifiedEntry (Added ml t) = [(ml, t)]"
| "modifiedEntry (Modified ol ml ot nt cs) = [(ml, nt)]"
| "modifiedEntry (Removed ol t) = []"

text \<open>
  The projections of a \<open>DecorationInfo\<close>: the entries of its lists that have the side, taken
  in the order of their line numbers on that side.
\<close>

definition originalProjection :: "DecorationInfo \<Rightarrow> string list" where
  "originalProjection info =
     map snd (sort_key fst
       (concat (map originalEntry (unchangedLines info @ removedLines info @ modifiedLines info))))"

definition modifiedProjection :: "DecorationInfo \<Rightarrow> string list" where
  "modifiedProjection info =
     map snd (sort_key fst
       (concat (map modifiedEntry (unchangedLines info @ addedLines info @ modifiedLines info))))"

text \<open>
  The change texts of a modified line that make up one side of it: unchanged and deleted
  text for the original line, unchanged and inserted text for the modified line.
\<close>

definition originalSideText :: "LineChange list \<Rightarrow> string" where
  "originalSideText cs = concat (map changeText (filter (\<lambda>c. changeKind c \<noteq> ChInsert) cs))"

definition modifiedSideText :: "LineChange list \<Rightarrow> string" where
  "modifiedSideText cs = concat (map changeText (filter (\<lambda>c. changeKind c \<noteq> ChDelete) cs))"

subsection \<open>Closed forms of the loops\<close>

text \<open>
  \<open>enumLines xs a b\<close> lists the lines \<open>a\<close> to \<open>b - 1\<close> of \<open>xs\<close> with their numbers;
  \<open>pairEntry\<close> is the entry the modification loop pushes for the \<open>i\<close>-th pair of a hunk;
  the four predicates tell the variants of an entry apart.
\<close>

definition enumLines :: "string list \<Rightarrow> nat \<Rightarrow> nat \<Rightarrow> (nat \<times> string) list" where
  "enumLines xs a b = map (\<lambda>k. (k, xs ! k)) [a..<b]"

definition pairEntry ::
  "differ \<Rightarrow> regexp \<Rightarrow> string list \<Rightarrow> string list \<Rightarrow> nat \<Rightarrow> nat \<Rightarrow> nat \<Rightarrow> DecorationLineInfo" where
  "pairEntry d rx ol ml sx sy i =
     (if ol ! (sx + i) \<noteq> ml ! (sy + i)
      then createModifiedLineInfo d (sx + i) (sy + i) (ol ! (sx + i)) (ml ! (sy + i)) rx
      else Unchanged (sx + i) (sy + i) (ml ! (sy + i)))"

fun isUnchangedInfo :: "DecorationLineInfo \<Rightarrow> bool" where
  "isUnchangedInfo (Unchanged a b t) = True" | "isUnchangedInfo _ = False"
fun isAddedInfo :: "DecorationLineInfo \<Rightarrow> bool" where
  "isAddedInfo (Added b t) = True" | "isAddedInfo _ = False"
fun isRemovedInfo :: "DecorationLineInfo \<Rightarrow> bool" where
  "isRemovedInfo (Removed a t) = True" | "isRemovedInfo _ = False"
fun isModifiedInfo :: "DecorationLineInfo \<Rightarrow> bool" where
  "isModifiedInfo (Modified a b ot nt cs) = True" | "isModifiedInfo _ = False"

text \<open>\<open>applies es xs ys\<close>: the edit list \<open>es\<close> turns the sequence \<open>xs\<close> into \<open>ys\<close>.\<close>

fun applies :: "edit list \<Rightarrow> 'a list \<Rightarrow> 'a list \<Rightarrow> bool" where
  "applies [] xs ys = (xs = [] \<and> ys = [])"
| "applies (Keep # es) xs ys =
     (case (xs, ys) of (x # xs', y # ys') \<Rightarrow> x = y \<and> applies es xs' ys' | _ \<Rightarrow> False)"
| "applies (Del # es) xs ys = (case xs of x # xs' \<Rightarrow> applies es xs' ys | [] \<Rightarrow> False)"
| "applies (Ins # es) xs ys = (case ys of y # ys' \<Rightarrow> applies es xs ys' | [] \<Rightarrow> False)"

section \<open>The agentic context reviewer (DeepCodyAgent)\<close>

text \<open>
  The class \<open>DeepCodyAgent\<close> is in the source file \<open>chat-view/handlers/registry.ts\<close>.
  A thrown value is an \<open>error\<close>; a function that can throw returns \<open>error + 'a\<close>.
\<close>

datatype error = Error string

datatype ContextItemSource = User | Editor | Search | Agentic | OtherSource string

text \<open>
  The fields of a \<open>ContextItem\<close> that the agent reads or writes: the discriminating \<open>type\<close>,
  the scheme and path of \<open>uri\<close>, the optional \<open>source\<close> and \<open>title\<close>, and the \<open>content\<close>.
\<close>

record ContextItem =
  itemType :: string
  uriScheme :: string
  uriPath :: string
  source :: "ContextItemSource option"
  title :: "string option"
  content :: "string option"

text \<open>A tool, by what the agent reads of its configuration: \<open>config.tags.tag\<close> and
  \<open>config.metadata.isMcpTool\<close>.\<close>

record CodyTool =
  tag :: string
  isMcpTool :: bool

text \<open>
  What the agent takes from other modules and does not define: \<open>isUserAddedItem\<close> of the prompt builder,
  \<open>getContextFromRelativePath\<close> (a file, \<open>undefined\<close>, or an exception), the two tags of
  \<open>ACTIONS_TAGS\<close>, and the context files of the chat builder's dehydrated messages, one
  optional list for each message.
\<close>

record collaborators =
  isUserAddedItem :: "ContextItem \<Rightarrow> bool"
  getContextFromRelativePath :: "string \<Rightarrow> error + ContextItem option"
  answerTag :: string
  contextTag :: string
  dehydratedMessages :: "ContextItem list option list"

text \<open>
  What the outside does during one call of \<open>review\<close>. The chat client either rejects the
  call or delivers a stream of messages; with each message comes the state of the parent
  abort signal at the moment the loop handles it. The abort signal is read once more when
  the non-MCP tools start and before each MCP tool. A tool run returns items or throws.
\<close>

datatype streamMsg = Change string | Complete | StreamError error

datatype chatResult = ChatRejected error | ChatStream "(streamMsg \<times> bool) list"

record turn =
  chat :: chatResult
  abortedAtTools :: bool
  abortedBeforeMcp :: "CodyTool \<Rightarrow> bool"
  toolRun :: "CodyTool \<Rightarrow> error + ContextItem list"

text \<open>The whole run: the abort signal at the head of iteration \<open>i\<close>, and the turn it gets.\<close>

record world =
  abortedAtLoop :: "nat \<Rightarrow> bool"
  turns :: "nat \<Rightarrow> turn"

text \<open>
  The state of the agent: the working context (the field \<open>context\<close> of the source), the two counters of \<open>stats\<close>, the tags
  subscribed to the multiplexer, the \<open>onTurnComplete\<close> calls the multiplexer has made (one
  tag for each call), and the calls of \<open>statusCallback.onComplete\<close> with their optional
  error.
\<close>

record agentState =
  contextItems :: "ContextItem list"
  statsContext :: nat
  statsLoop :: nat
  subscribed :: "string list"
  turnCompletes :: "string list"
  completions :: "(string \<times> error option) list"

subsection \<open>The multiplexer\<close>

text \<open>
  Modelled from the spec: the class \<open>BotResponseMultiplexer\<close> of the shared library is not
  among the sources. The spec describes "an explicit registry of tag -> subscriber" in
  which "each tool subscribes to its own XML-style tag", and a turn-complete notification
  that reaches "every subscribed tag": \<open>sub\<close> registers a tag once, and one call of
  \<open>notifyTurnComplete\<close> calls \<open>onTurnComplete\<close> once for every registered tag.
\<close>

definition sub :: "string \<Rightarrow> agentState \<Rightarrow> agentState" where
  "sub topic st =
     (if topic \<in> set (subscribed st) then st else st\<lparr>subscribed := subscribed st @ [topic]\<rparr>)"

definition notifyTurnComplete :: "agentState \<Rightarrow> agentState" where
  "notifyTurnComplete st = st\<lparr>turnCompletes := turnCompletes st @ subscribed st\<rparr>"

definition initializeMultiplexer :: "CodyTool list \<Rightarrow> agentState \<Rightarrow> agentState" where
  "initializeMultiplexer tools st = foldl (\<lambda>s tool. sub (tag tool) s) st tools"

definition newAgent :: "CodyTool list \<Rightarrow> agentState" where
  "newAgent tools =
     initializeMultiplexer tools
       \<lparr>contextItems = [], statsContext = 0, statsLoop = 0, subscribed = [],
        turnCompletes = [], completions = []\<rparr>"

subsection \<open>RawTextProcessor and the stream\<close>

text \<open>
  \<open>RawTextProcessor.extract\<close> (here \<open>rawTextExtract\<close>) matches the pattern "open tag, as few characters as
  possible none of which is a line terminator, close tag" repeatedly from the left and
  returns what stands between the tags. \<open>findClose\<close> looks for the close tag;
  \<open>extractScan\<close> walks the text and skips the rest of a match it has found. The tag is
  taken literally: it holds no character that is special in a regular expression.
\<close>

fun findClose :: "string \<Rightarrow> string \<Rightarrow> string option" where
  "findClose close [] = (if close = [] then Some [] else None)"
| "findClose close (c # cs) =
     (if prefix close (c # cs) then Some []
      else if isLineTerminator c then None
      else map_option ((#) c) (findClose close cs))"

fun extractScan :: "string \<Rightarrow> string \<Rightarrow> nat \<Rightarrow> string \<Rightarrow> string list" where
  "extractScan opn close skip [] = []"
| "extractScan opn close skip (c # cs) =
     (if skip > 0 then extractScan opn close (skip - 1) cs
      else if prefix opn (c # cs)
      then (case findClose close (drop (length opn) (c # cs)) of
              Some inner \<Rightarrow>
                inner # extractScan opn close (length opn + length inner + length close - 1) cs
            | None \<Rightarrow> extractScan opn close 0 cs)
      else extractScan opn close 0 cs)"

definition rawTextExtract :: "string \<Rightarrow> string \<Rightarrow> string list" where
  "rawTextExtract response tg = extractScan (''<'' @ tg @ ''>'') (''</'' @ tg @ ''>'') 0 response"

definition isReadyToAnswer :: "collaborators \<Rightarrow> string \<Rightarrow> bool" where
  "isReadyToAnswer E text = (text = ''<'' @ answerTag E @ ''>'')"

text \<open>
  The loop of \<open>processStream\<close> over the messages; \<open>parts\<close> is the content of the
  \<open>RawTextProcessor\<close>. A change carries the whole text so far, of which the part after
  the accumulated length is appended.
\<close>

fun consumeStream :: "(streamMsg \<times> bool) list \<Rightarrow> string list \<Rightarrow> error + string list" where
  "consumeStream [] parts = Inr parts"
| "consumeStream ((msg, aborted) # rest) parts =
     (if aborted then Inr parts
      else case msg of
             Change text \<Rightarrow> consumeStream rest (parts @ [drop (length (concat parts)) text])
           | Complete \<Rightarrow> Inr parts
           | StreamError e \<Rightarrow> Inl e)"

text \<open>
  \<open>processStream\<close>: a rejected chat call throws before the \<open>try\<close>; once the stream is
  there, the \<open>finally\<close> block notifies the multiplexer whether the loop ends, breaks or
  throws.
\<close>

definition processStream :: "chatResult \<Rightarrow> agentState \<Rightarrow> (error + string) \<times> agentState" where
  "processStream c st =
     (case c of
        ChatRejected e \<Rightarrow> (Inl e, st)
      | ChatStream msgs \<Rightarrow>
          (case consumeStream msgs [] of
             Inl e \<Rightarrow> (Inl e, notifyTurnComplete st)
           | Inr parts \<Rightarrow> (Inr (concat parts), notifyTurnComplete st)))"

subsection \<open>Reflection\<close>

text \<open>
  The double loop of \<open>reflect\<close>: for each context name, for each item of the current
  context whose path ends with the name, the file read again (for the scheme \<open>file\<close>) or
  the item itself, tagged agentic; when reading the file throws, the item is skipped.
\<close>

definition reviewItem :: "collaborators \<Rightarrow> string \<Rightarrow> ContextItem \<Rightarrow> ContextItem list" where
  "reviewItem E contextName item =
     (if suffix contextName (uriPath item)
      then (case (if uriScheme item = ''file'' then getContextFromRelativePath E contextName
                  else Inr (Some item)) of
              Inl e \<Rightarrow> []
            | Inr file \<Rightarrow>
                [(case file of Some f \<Rightarrow> f | None \<Rightarrow> item)\<lparr>source := Some Agentic\<rparr>])
      else [])"

definition reviewed :: "collaborators \<Rightarrow> string list \<Rightarrow> ContextItem list \<Rightarrow> ContextItem list" where
  "reviewed E contextNames currentContext =
     concat (map (\<lambda>contextName. concat (map (reviewItem E contextName) currentContext))
               contextNames)"

definition reflect :: "collaborators \<Rightarrow> string list \<Rightarrow> agentState \<Rightarrow> agentState" where
  "reflect E contextNames st =
     (if contextNames = [] \<or> contextItems st = [] then st
      else
        let currentContext =
              contextItems st @
              concat (map (\<lambda>m. case m of Some fs \<Rightarrow> rev fs | None \<Rightarrow> [])
                        (dehydratedMessages E));
            rs = reviewed E contextNames currentContext
        in if rs \<noteq> []
           then
             let userAdded = filter (\<lambda>c. isUserAddedItem E c \<or> itemType c = ''media'') (contextItems st)
             in st\<lparr>contextItems := rs @ userAdded\<rparr>
           else st)"

subsection \<open>Running the tools\<close>

text \<open>
  The non-MCP tools start together: all of them read the abort signal before any of them
  has run. A tool that throws is reported with \<open>onComplete(tag, error)\<close> and counts as the
  empty result. The reports are listed in the order of the tools.
\<close>

fun runNonMcpTools ::
  "turn \<Rightarrow> CodyTool list \<Rightarrow> agentState \<Rightarrow> ContextItem list list \<times> agentState" where
  "runNonMcpTools t [] st = ([], st)"
| "runNonMcpTools t (tool # tools) st =
     (let (r, st1) =
            (if abortedAtTools t then ([], st)
             else case toolRun t tool of
                    Inr items \<Rightarrow> (items, st)
                  | Inl e \<Rightarrow> ([], st\<lparr>completions := completions st @ [(tag tool, Some e)]\<rparr>));
          (rs, st2) = runNonMcpTools t tools st1
      in (r # rs, st2))"

text \<open>The MCP tools run one after the other; the loop stops at the first tool that finds
  the signal aborted.\<close>

fun runMcpTools ::
  "turn \<Rightarrow> CodyTool list \<Rightarrow> agentState \<Rightarrow> ContextItem list list \<times> agentState" where
  "runMcpTools t [] st = ([], st)"
| "runMcpTools t (tool # tools) st =
     (if abortedBeforeMcp t tool then ([], st)
      else
        let (r, st1) =
              (case toolRun t tool of
                 Inr items \<Rightarrow> (items, st)
               | Inl e \<Rightarrow> ([], st\<lparr>completions := completions st @ [(tag tool, Some e)]\<rparr>));
            (rs, st2) = runMcpTools t tools st1
        in (r # rs, st2))"

subsection \<open>review, reviewLoop and getContext\<close>

text \<open>
  One iteration. An exception of \<open>processStream\<close> lands in the \<open>catch\<close> block of \<open>review\<close>,
  which notifies the multiplexer and returns no items. The tool results are typed
  \<open>ContextItem[]\<close>, so \<open>filter(isDefined)\<close> keeps all of them.
\<close>

definition review :: "collaborators \<Rightarrow> CodyTool list \<Rightarrow> turn \<Rightarrow> agentState \<Rightarrow> ContextItem list \<times> agentState" where
  "review E tools t st =
     (case processStream (chat t) st of
        (Inl e, st1) \<Rightarrow> ([], notifyTurnComplete st1)
      | (Inr res, st1) \<Rightarrow>
          if res = [] \<or> isReadyToAnswer E res then ([], st1)
          else
            let mcpTools = filter isMcpTool tools;
                nonMcpTools = filter (\<lambda>tool. \<not> isMcpTool tool) tools;
                (nonMcpResults, st2) = runNonMcpTools t nonMcpTools st1;
                (mcpResults, st3) = runMcpTools t mcpTools st2;
                newContext = concat nonMcpResults @ concat mcpResults;
                st4 = (if length newContext > 0
                       then st3\<lparr>statsContext := statsContext st3 + length newContext\<rparr>
                       else st3)
            in (newContext, reflect E (rawTextExtract res (contextTag E)) st4))"

text \<open>The two statements of the loop body that add the new items to the working context:
  the items titled \<open>TOOLCONTEXT\<close> are left out.\<close>

definition addValidItems :: "ContextItem list \<Rightarrow> agentState \<Rightarrow> agentState" where
  "addValidItems newContext st =
     (let validItems = filter (\<lambda>c. title c \<noteq> Some ''TOOLCONTEXT'') newContext
      in st\<lparr>contextItems := contextItems st @ validItems,
            statsContext := statsContext st + length validItems\<rparr>)"

function reviewLoop ::
  "collaborators \<Rightarrow> CodyTool list \<Rightarrow> world \<Rightarrow> nat \<Rightarrow> nat \<Rightarrow> agentState \<Rightarrow> agentState" where
  "reviewLoop E tools W maxLoops i st =
     (if i < maxLoops \<and> \<not> abortedAtLoop W i
      then
        let (newContext, st1) = review E tools (turns W i) (st\<lparr>statsLoop := statsLoop st + 1\<rparr>)
        in if newContext = [] then st1
           else
             let st2 = addValidItems newContext st1
             in if list_all (isUserAddedItem E) newContext then st2
                else reviewLoop E tools W maxLoops (Suc i) st2
      else st)"
  by pat_completeness auto
termination
  by (relation "measure (\<lambda>(E, tools, W, maxLoops, i, st). maxLoops - i)") auto

declare reviewLoop.simps [simp del]

text \<open>\<open>getContext\<close> sets the working context, runs the loop, completes the main step
  (whose identifier is the parameter \<open>mainProcessId\<close>) and returns the working context.\<close>

definition getContext ::
  "collaborators \<Rightarrow> CodyTool list \<Rightarrow> world \<Rightarrow> string \<Rightarrow> ContextItem list \<Rightarrow> nat \<Rightarrow> agentState
     \<Rightarrow> ContextItem list \<times> agentState" where
  "getContext E tools W mainProcessId ctx maxLoops st =
     (let st1 = reviewLoop E tools W maxLoops 0 (st\<lparr>contextItems := ctx\<rparr>);
          st2 = st1\<lparr>completions := completions st1 @ [(mainProcessId, None)]\<rparr>
      in (contextItems st2, st2))"

subsection \<open>Example data\<close>

text \<open>
  Collaborators, tools and items on which the agent is run below: the user-added items
  are those with the source \<open>user\<close>, no file can be read again, and the tools are the
  search, the file and the command-line tool.
\<close>

definition exCollaborators :: collaborators where
  "exCollaborators =
     \<lparr>isUserAddedItem = (\<lambda>c. source c = Some User),
      getContextFromRelativePath = (\<lambda>p. Inr None),
      answerTag = ''next_step'', contextTag = ''context_list'',
      dehydratedMessages = []\<rparr>"

definition exItem :: "string \<Rightarrow> ContextItemSource \<Rightarrow> string option \<Rightarrow> ContextItem" where
  "exItem p s ttl =
     \<lparr>itemType = ''file'', uriScheme = ''file'', uriPath = p, source = Some s,
      title = ttl, content = None\<rparr>"

definition exTools :: "CodyTool list" where
  "exTools =
     [\<lparr>tag = ''TOOLSEARCH'', isMcpTool = False\<rparr>,
      \<lparr>tag = ''TOOLFILE'', isMcpTool = False\<rparr>,
      \<lparr>tag = ''TOOLCLI'', isMcpTool = False\<rparr>]"

text \<open>A turn in which the model answers \<open>r\<close> in one change and the tools behave as \<open>run\<close>
  says; nothing is aborted.\<close>

definition exTurn :: "string \<Rightarrow> (CodyTool \<Rightarrow> error + ContextItem list) \<Rightarrow> turn" where
  "exTurn r run =
     \<lparr>chat = ChatStream [(Change r, False), (Complete, False)], abortedAtTools = False,
      abortedBeforeMcp = (\<lambda>tool. False), toolRun = run\<rparr>"

text \<open>A turn in which the stream reports an error after its first change.\<close>

definition exErrorTurn :: turn where
  "exErrorTurn =
     \<lparr>chat = ChatStream [(Change ''<TOOLSEARCH>'', False), (StreamError (Error ''network''), False)],
      abortedAtTools = False, abortedBeforeMcp = (\<lambda>tool. False),
      toolRun = (\<lambda>tool. Inr [])\<rparr>"

definition exWorld :: "(nat \<Rightarrow> turn) \<Rightarrow> world" where
  "exWorld ts = \<lparr>abortedAtLoop = (\<lambda>i. False), turns = ts\<rparr>"

subsection \<open>Closed forms of the tool runs\<close>

text \<open>What one tool contributes in a turn: its items, and its error report when it throws.\<close>

definition toolItems :: "turn \<Rightarrow> CodyTool \<Rightarrow> ContextItem list" where
  "toolItems t tool = (case toolRun t tool of Inr items \<Rightarrow> items | Inl e \<Rightarrow> [])"

definition toolReports :: "turn \<Rightarrow> CodyTool \<Rightarrow> (string \<times> error option) list" where
  "toolReports t tool = (case toolRun t tool of Inr items \<Rightarrow> [] | Inl e \<Rightarrow> [(tag tool, Some e)])"

text \<open>The text a chat result streams before it ends or breaks, when it does not throw.\<close>

definition streamedText :: "chatResult \<Rightarrow> string option" where
  "streamedText c =
     (case c of
        ChatRejected e \<Rightarrow> None
      | ChatStream msgs \<Rightarrow>
          (case consumeStream msgs [] of Inl e \<Rightarrow> None | Inr parts \<Rightarrow> Some (concat parts)))"

text \<open>The context names that the reflection of a turn works on: none when the tools are
  not run.\<close>

definition reflectNames :: "collaborators \<Rightarrow> chatResult \<Rightarrow> string list" where
  "reflectNames E c =
     (case streamedText c of
        None \<Rightarrow> []
      | Some res \<Rightarrow>
          if res = [] \<or> isReadyToAnswer E res then [] else rawTextExtract res (contextTag E))"

text \<open>The new context and the state of an iteration after its tools have run.\<close>

definition afterTools :: "turn \<Rightarrow> CodyTool list \<Rightarrow> agentState \<Rightarrow> ContextItem list \<times> agentState" where
  "afterTools t tools st =
     (let nonMcp = filter (\<lambda>tool. \<not> isMcpTool tool) tools;
          mcp = takeWhile (\<lambda>tool. \<not> abortedBeforeMcp t tool) (filter isMcpTool tools);
          newContext = (if abortedAtTools t then [] else concat (map (toolItems t) nonMcp)) @
                       concat (map (toolItems t) mcp);
          reports = (if abortedAtTools t then [] else concat (map (toolReports t) nonMcp)) @
                    concat (map (toolReports t) mcp);
          st3 = st\<lparr>completions := completions st @ reports\<rparr>
      in (newContext,
          if newContext = [] then st3
          else st3\<lparr>statsContext := statsContext st3 + length newContext\<rparr>))"

subsection \<open>Example runs\<close>

text \<open>A run in which the model answers \<open>r\<close> in every turn and every tool returns the empty
  list.\<close>

definition exQuietWorld :: "string \<Rightarrow> world" where
  "exQuietWorld r = exWorld (\<lambda>i. exTurn r (\<lambda>tool. Inr []))"

text \<open>A turn in which the file tool throws while the search tool and the command-line tool
  return one item each.\<close>

definition exFailingRun :: "CodyTool \<Rightarrow> error + ContextItem list" where
  "exFailingRun tool =
     (if tag tool = ''TOOLFILE'' then Inl (Error ''ENOENT'')
      else if tag tool = ''TOOLSEARCH'' then Inr [exItem ''/src/found.ts'' Search None]
      else Inr [exItem ''/cli/output'' Search None])"

definition exFailingTurn :: turn where
  "exFailingTurn = exTurn ''<TOOLSEARCH>query</TOOLSEARCH>'' exFailingRun"

text \<open>A run whose first turn yields one item titled \<open>TOOLCONTEXT\<close> from the search tool and
  whose later turns yield nothing.\<close>

definition exToolContextWorld :: world where
  "exToolContextWorld =
     exWorld (\<lambda>i. exTurn ''<TOOLSEARCH>query</TOOLSEARCH>''
       (\<lambda>tool. if i = 0 \<and> tag tool = ''TOOLSEARCH''
               then Inr [exItem ''/tool/output'' Search (Some ''TOOLCONTEXT'')]
               else Inr []))"

text \<open>The other ways a turn can go, with the same tools: the stream completes and the tools
  yield nothing; the signal is aborted while the stream is read; the chat call is
  rejected.\<close>

definition exQuietTurn :: turn where
  "exQuietTurn = exTurn ''<TOOLSEARCH>query</TOOLSEARCH>'' (\<lambda>tool. Inr [])"

definition exAbortedTurn :: turn where
  "exAbortedTurn =
     \<lparr>chat = ChatStream [(Change ''<TOOLSEARCH>'', False), (Change ''<TOOLSEARCH>query'', True)],
      abortedAtTools = True, abortedBeforeMcp = (\<lambda>tool. True),
      toolRun = (\<lambda>tool. Inr [])\<rparr>"

definition exRejectedTurn :: turn where
  "exRejectedTurn =
     \<lparr>chat = ChatRejected (Error ''unauthorized''),
      abortedAtTools = False, abortedBeforeMcp = (\<lambda>tool. False),
      toolRun = (\<lambda>tool. Inr [])\<rparr>"

text \<open>A run like \<open>exToolContextWorld\<close> in which the response also names the context
  \<open>a.ts\<close>.\<close>

definition exToolContextReflectWorld :: world where
  "exToolContextReflectWorld =
     exWorld (\<lambda>i. exTurn ''<context_list>a.ts</context_list>''
       (\<lambda>tool. if i = 0 \<and> tag tool = ''TOOLSEARCH''
               then Inr [exItem ''/tool/output'' Search (Some ''TOOLCONTEXT'')]
               else Inr []))"

definition exContext :: "ContextItem list" where
  "exContext = [exItem ''/src/a.ts'' Search None, exItem ''/notes/todo.md'' User None]"

section \<open>Properties of sortDiff\<close>

lemma sortDiffCompare_le: "sortDiffCompare a b \<le> 0 \<longleftrightarrow> sortDiffLe a b"
  by (auto simp: sortDiffCompare_def sortDiffLe_def)

lemma sortDiffLe_total: "sortDiffLe a b \<or> sortDiffLe b a"
  by (auto simp: sortDiffLe_def)

lemma sortDiffLe_trans: "sortDiffLe a b \<Longrightarrow> sortDiffLe b c \<Longrightarrow> sortDiffLe a c"
  by (auto simp: sortDiffLe_def)

lemma mset_insertBy: "mset (insertBy cmp x ys) = add_mset x (mset ys)"
  by (induction ys) auto

lemma mset_sortBy: "mset (sortBy cmp xs) = mset xs"
  by (induction xs) (auto simp: sortBy_def mset_insertBy)

lemma set_insertBy: "set (insertBy cmp x ys) = insert x (set ys)"
  by (induction ys) auto

lemma sorted_insertBy:
  "sorted_wrt sortDiffLe ys \<Longrightarrow> sorted_wrt sortDiffLe (insertBy sortDiffCompare x ys)"
proof (induction ys)
  case Nil
  then show ?case by simp
next
  case (Cons y ys)
  show ?case
  proof (cases "sortDiffCompare x y \<le> 0")
    case True
    then have xy: "sortDiffLe x y" by (simp add: sortDiffCompare_le)
    have "\<forall>z\<in>set ys. sortDiffLe x z"
      using Cons.prems xy by (auto intro: sortDiffLe_trans)
    with True xy Cons.prems show ?thesis by simp
  next
    case False
    then have yx: "sortDiffLe y x"
      using sortDiffLe_total [of x y] by (auto simp: sortDiffCompare_le)
    with False Cons show ?thesis by (auto simp: set_insertBy)
  qed
qed

lemma sorted_sortBy: "sorted_wrt sortDiffLe (sortBy sortDiffCompare xs)"
  by (induction xs) (auto simp: sortBy_def sorted_insertBy)

text \<open>The sort is stable: the entries with one line number and one type keep the order
  they have in the list that is sorted.\<close>

lemma filter_insertBy_key:
  "filter (\<lambda>a. sortLine a = l \<and> typeOrder a = k) (insertBy sortDiffCompare x ys) =
     (if sortLine x = l \<and> typeOrder x = k
      then x # filter (\<lambda>a. sortLine a = l \<and> typeOrder a = k) ys
      else filter (\<lambda>a. sortLine a = l \<and> typeOrder a = k) ys)"
  by (induction ys) (auto simp: sortDiffCompare_def)

lemma sortBy_stable:
  "filter (\<lambda>a. sortLine a = l \<and> typeOrder a = k) (sortBy sortDiffCompare xs) =
     filter (\<lambda>a. sortLine a = l \<and> typeOrder a = k) xs"
  by (induction xs) (auto simp: sortBy_def filter_insertBy_key)

text \<open>
  Claim C4, as the code has it. \<open>sortDiff\<close> returns the entries of the four lists, each as
  often as it occurs there, ordered by line number (the original line number of a removed
  entry, the modified line number of every other entry); two entries on one line number
  come in the order removed, added, modified, unchanged.
\<close>

theorem sortDiff_sorted:
  "mset (sortDiff diff) =
     mset (addedLines diff) + mset (modifiedLines diff) + mset (unchangedLines diff) +
     mset (removedLines diff) \<and>
   sorted_wrt
     (\<lambda>a b. sortLine a < sortLine b \<or> (sortLine a = sortLine b \<and> typeOrder a \<le> typeOrder b))
     (sortDiff diff) \<and>
   typeOrder (Removed ol t) < typeOrder (Added ml t') \<and>
   typeOrder (Added ml t') < typeOrder (Modified ol' ml' ot nt cs) \<and>
   typeOrder (Modified ol' ml' ot nt cs) < typeOrder (Unchanged ol'' ml'' t'')"
proof -
  have "sorted_wrt sortDiffLe (sortDiff diff)"
    unfolding sortDiff_def by (rule sorted_sortBy)
  moreover have "sortDiffLe =
    (\<lambda>a b. sortLine a < sortLine b \<or> (sortLine a = sortLine b \<and> typeOrder a \<le> typeOrder b))"
    by (intro ext) (simp add: sortDiffLe_def)
  ultimately show ?thesis
    by (simp add: sortDiff_def mset_sortBy)
qed

text \<open>
  The priority added, modified, unchanged, removed does not break the ties: for the
  decoration of the lines \<open>a, b, c\<close> changed to \<open>b, c, d\<close> the removed line \<open>a\<close> and the
  unchanged line \<open>b\<close> share the number 0, and the removed line comes first.
\<close>

theorem sortDiff_tie_counterexample:
  "sortDiff \<lparr>modifiedLines = [], removedLines = [Removed 0 ''a''],
             addedLines = [Added 2 ''d''],
             unchangedLines = [Unchanged 1 0 ''b'', Unchanged 2 1 ''c'']\<rparr> =
     [Removed 0 ''a'', Unchanged 1 0 ''b'', Unchanged 2 1 ''c'', Added 2 ''d''] \<and>
   sortDiff \<lparr>modifiedLines = [], removedLines = [Removed 0 ''a''],
             addedLines = [Added 2 ''d''],
             unchangedLines = [Unchanged 1 0 ''b'', Unchanged 2 1 ''c'']\<rparr> \<noteq>
     [Unchanged 1 0 ''b'', Removed 0 ''a'', Unchanged 2 1 ''c'', Added 2 ''d'']"
  by (simp add: sortDiff_def sortBy_def sortDiffCompare_def)

section \<open>The line diff reconstructs both texts\<close>

lemma jsJoin_Cons: "jsJoin sep (x # xs) = (if xs = [] then x else x @ sep @ jsJoin sep xs)"
  by (cases xs) auto

lemma jsSplitNonempty_not_Nil: "jsSplitNonempty sep s \<noteq> []"
  by (induction sep s rule: jsSplitNonempty.induct) (auto split: list.splits)

lemma jsJoin_jsSplitNonempty: "sep \<noteq> [] \<Longrightarrow> jsJoin sep (jsSplitNonempty sep s) = s"
proof (induction sep s rule: jsSplitNonempty.induct)
  case (1 sep)
  then show ?case by simp
next
  case (2 sep c cs)
  show ?case
  proof (cases "prefix sep (c # cs)")
    case True
    have step: "jsSplitNonempty sep (c # cs) = [] # jsSplitNonempty sep (drop (length sep) (c # cs))"
      using True 2(3) by simp
    from 2(1) True 2(3)
    have ih: "jsJoin sep (jsSplitNonempty sep (drop (length sep) (c # cs))) = drop (length sep) (c # cs)"
      by simp
    have "sep @ drop (length sep) (c # cs) = c # cs"
      using True by (metis append_eq_conv_conj prefix_def)
    with ih show ?thesis
      unfolding step by (simp add: jsJoin_Cons jsSplitNonempty_not_Nil del: drop_Suc_Cons)
  next
    case False
    with 2(2) 2(3) have ih: "jsJoin sep (jsSplitNonempty sep cs) = cs" by simp
    obtain p ps where ps: "jsSplitNonempty sep cs = p # ps"
      using jsSplitNonempty_not_Nil [of sep cs] by (cases "jsSplitNonempty sep cs") auto
    with ih False show ?thesis by (simp add: jsJoin_Cons split: if_splits)
  qed
qed

lemma jsJoin_chars: "jsJoin [] (map (\<lambda>c. [c]) s) = s"
  by (induction s) (auto simp: jsJoin_Cons)

lemma jsJoin_jsSplit: "jsJoin sep (jsSplit sep s) = s"
  by (simp add: jsSplit_def jsJoin_chars jsJoin_jsSplitNonempty)

lemma enumLines_append: "a \<le> b \<Longrightarrow> b \<le> c \<Longrightarrow> enumLines xs a b @ enumLines xs b c = enumLines xs a c"
proof -
  assume ab: "a \<le> b" and "b \<le> c"
  then obtain e where c: "c = b + e" by (auto simp: le_iff_add)
  show ?thesis
    unfolding enumLines_def c upt_add_eq_append [OF ab] by simp
qed

lemma enumLines_same [simp]: "enumLines xs a a = []"
  by (simp add: enumLines_def)

lemma enumLines_shift: "map (\<lambda>n. (a + n, xs ! (a + n))) [0..<k] = enumLines xs a (a + k)"
  by (induction k) (auto simp: enumLines_def)

lemma unchangedWhile_closed:
  "k = min (os - oi) (ms - mi) \<Longrightarrow> mi + k \<le> length ml \<Longrightarrow>
   unchangedWhile ml oi mi os ms =
     Some (map (\<lambda>n. Unchanged (oi + n) (mi + n) (ml ! (mi + n))) [0..<k])"
proof (induction ml oi mi os ms arbitrary: k rule: unchangedWhile.induct)
  case (1 ml oi mi os ms)
  show ?case
  proof (cases "oi < os \<and> mi < ms")
    case False
    with "1.prems" have "k = 0" by auto
    with False show ?thesis by (subst unchangedWhile.simps) auto
  next
    case True
    define k' where "k' = min (os - Suc oi) (ms - Suc mi)"
    with True "1.prems" have k: "k = Suc k'" "k' = min (os - Suc oi) (ms - Suc mi)"
      by (auto simp: min_def)
    with "1.prems" have lt: "mi < length ml" by simp
    then have nth: "jsNth ml mi = Some (ml ! mi)" by (simp add: jsNth_def)
    from "1.prems" k have "Suc mi + k' \<le> length ml" by simp
    from "1.IH" [OF True nth k(2) this]
    have ih: "unchangedWhile ml (Suc oi) (Suc mi) os ms =
       Some (map (\<lambda>n. Unchanged (Suc oi + n) (Suc mi + n) (ml ! (Suc mi + n))) [0..<k'])" .
    show ?thesis
      using True nth ih unfolding k(1) map_upt_Suc
      by (subst unchangedWhile.simps) simp
  qed
qed

lemma modificationLoop_closed:
  "sx + n \<le> length ol \<Longrightarrow> sy + n \<le> length ml \<Longrightarrow>
   modificationLoop d rx ol ml sx sy n i = Some (map (pairEntry d rx ol ml sx sy) [i..<n])"
proof (induction d rx ol ml sx sy n i rule: modificationLoop.induct)
  case (1 d rx ol ml sx sy n i)
  show ?case
  proof (cases "i < n")
    case False
    then show ?thesis by (subst modificationLoop.simps) simp
  next
    case True
    with "1.prems" have n1: "jsNth ol (sx + i) = Some (ol ! (sx + i))"
      and n2: "jsNth ml (sy + i) = Some (ml ! (sy + i))"
      by (simp_all add: jsNth_def)
    from "1.IH" [OF True n1 n2 "1.prems"]
    have ih: "modificationLoop d rx ol ml sx sy n (Suc i) = Some (map (pairEntry d rx ol ml sx sy) [Suc i..<n])" .
    show ?thesis
      using True n1 n2 ih
      by (subst modificationLoop.simps) (simp add: upt_conv_Cons pairEntry_def)
  qed
qed

lemma removedLoop_closed:
  "sx + n \<le> length ol \<Longrightarrow>
   removedLoop ol sx n j = Some (map (\<lambda>k. Removed (sx + k) (ol ! (sx + k))) [j..<n])"
proof (induction ol sx n j rule: removedLoop.induct)
  case (1 ol sx n j)
  show ?case
  proof (cases "j < n")
    case False
    then show ?thesis by (subst removedLoop.simps) simp
  next
    case True
    with "1.prems" have n1: "jsNth ol (sx + j) = Some (ol ! (sx + j))"
      by (simp add: jsNth_def)
    from "1.IH" [OF True n1 "1.prems"] True n1 show ?thesis
      by (subst removedLoop.simps) (simp add: upt_conv_Cons)
  qed
qed

lemma addedLoop_closed:
  "sy + n \<le> length ml \<Longrightarrow>
   addedLoop ml sy n j = Some (map (\<lambda>k. Added (sy + k) (ml ! (sy + k))) [j..<n])"
proof (induction ml sy n j rule: addedLoop.induct)
  case (1 ml sy n j)
  show ?case
  proof (cases "j < n")
    case False
    then show ?thesis by (subst addedLoop.simps) simp
  next
    case True
    with "1.prems" have n1: "jsNth ml (sy + j) = Some (ml ! (sy + j))"
      by (simp add: jsNth_def)
    from "1.IH" [OF True n1 "1.prems"] True n1 show ?thesis
      by (subst addedLoop.simps) (simp add: upt_conv_Cons)
  qed
qed

lemma concat_map_single: "(\<And>x. x \<in> set xs \<Longrightarrow> f x = [h x]) \<Longrightarrow> concat (map f xs) = map h xs"
  by (induction xs) auto

lemma concat_map_none: "(\<And>x. x \<in> set xs \<Longrightarrow> f x = []) \<Longrightarrow> concat (map f xs) = []"
  by (induction xs) auto

lemma originalEntry_create [simp]:
  "originalEntry (createModifiedLineInfo d a b ot nt rx) = [(a, ot)]"
  by (simp add: createModifiedLineInfo_def Let_def)

lemma modifiedEntry_create [simp]:
  "modifiedEntry (createModifiedLineInfo d a b ot nt rx) = [(b, nt)]"
  by (simp add: createModifiedLineInfo_def Let_def)

lemma originalEntry_pair: "originalEntry (pairEntry d rx ol ml sx sy i) = [(sx + i, ol ! (sx + i))]"
  by (simp add: pairEntry_def)

lemma modifiedEntry_pair: "modifiedEntry (pairEntry d rx ol ml sx sy i) = [(sy + i, ml ! (sy + i))]"
  by (simp add: pairEntry_def)

lemma enumLines_shift_from:
  "map (\<lambda>n. (a + n, xs ! (a + n))) [i..<k] = enumLines xs (a + i) (a + k)"
proof (cases "i \<le> k")
  case True
  then obtain e where k: "k = i + e" by (auto simp: le_iff_add)
  have "map (\<lambda>n. (a + n, xs ! (a + n))) [i..<i + e] = enumLines xs (a + i) (a + i + e)"
    by (induction e) (auto simp: enumLines_def add.assoc)
  then show ?thesis by (simp add: k add.assoc)
next
  case False
  then show ?thesis by (simp add: enumLines_def)
qed

lemma applyLineHunk_sides:
  assumes "sx \<le> ex" "ex \<le> length ol" "sy \<le> ey" "ey \<le> length ml"
  shows "\<exists>cs. applyLineHunk d rx ol ml (sx, ex, sy, ey) = Some cs \<and>
           concat (map originalEntry cs) = enumLines ol sx ex \<and>
           concat (map modifiedEntry cs) = enumLines ml sy ey"
proof -
  define n where "n = min (ex - sx) (ey - sy)"
  define ms where "ms = map (pairEntry d rx ol ml sx sy) [0..<n]"
  define rs where "rs = map (\<lambda>k. Removed (sx + k) (ol ! (sx + k))) [n..<ex - sx]"
  define as where "as = map (\<lambda>k. Added (sy + k) (ml ! (sy + k))) [n..<ey - sy]"
  have b1: "sx + n \<le> length ol" and b2: "sy + n \<le> length ml"
    and b3: "sx + (ex - sx) \<le> length ol" and b4: "sy + (ey - sy) \<le> length ml"
    using assms by (auto simp: n_def)
  have r: "applyLineHunk d rx ol ml (sx, ex, sy, ey) = Some (ms @ rs @ as)"
    unfolding applyLineHunk_def Let_def
    by (simp add: modificationLoop_closed [OF b1 b2] removedLoop_closed [OF b3]
          addedLoop_closed [OF b4] n_def [symmetric] ms_def rs_def as_def)
  have o1: "concat (map originalEntry ms) = enumLines ol (sx + 0) (sx + n)"
    unfolding ms_def map_map enumLines_shift_from [symmetric]
    by (rule concat_map_single) (simp add: originalEntry_pair)
  have o2: "concat (map originalEntry rs) = enumLines ol (sx + n) (sx + (ex - sx))"
    unfolding rs_def map_map enumLines_shift_from [symmetric]
    by (rule concat_map_single) simp
  have o3: "concat (map originalEntry as) = []"
    unfolding as_def map_map by (rule concat_map_none) simp
  have m1: "concat (map modifiedEntry ms) = enumLines ml (sy + 0) (sy + n)"
    unfolding ms_def map_map enumLines_shift_from [symmetric]
    by (rule concat_map_single) (simp add: modifiedEntry_pair)
  have m2: "concat (map modifiedEntry rs) = []"
    unfolding rs_def map_map by (rule concat_map_none) simp
  have m3: "concat (map modifiedEntry as) = enumLines ml (sy + n) (sy + (ey - sy))"
    unfolding as_def map_map enumLines_shift_from [symmetric]
    by (rule concat_map_single) simp
  have nle: "n \<le> ex - sx" "n \<le> ey - sy" by (auto simp: n_def)
  have "concat (map originalEntry (ms @ rs @ as)) = enumLines ol sx ex"
    using assms nle by (simp add: o1 o2 o3 enumLines_append)
  moreover have "concat (map modifiedEntry (ms @ rs @ as)) = enumLines ml sy ey"
    using assms nle by (simp add: m1 m2 m3 enumLines_append)
  ultimately show ?thesis using r by blast
qed

lemma unchanged_run_sides:
  assumes eq: "jsSlice ol oi (oi + k) = jsSlice ml mi (mi + k)"
    and b1: "oi + k \<le> length ol" and b2: "mi + k \<le> length ml"
    and k: "k = min (os - oi) (ms - mi)"
  shows "\<exists>us. unchangedWhile ml oi mi os ms = Some us \<and>
           concat (map originalEntry us) = enumLines ol oi (oi + k) \<and>
           concat (map modifiedEntry us) = enumLines ml mi (mi + k)"
proof -
  define us where "us = map (\<lambda>n. Unchanged (oi + n) (mi + n) (ml ! (mi + n))) [0..<k]"
  have r: "unchangedWhile ml oi mi os ms = Some us"
    unfolding us_def by (rule unchangedWhile_closed [OF k b2])
  have same: "ol ! (oi + n) = ml ! (mi + n)" if "n < k" for n
  proof -
    have "jsSlice ol oi (oi + k) ! n = ol ! (oi + n)"
      using that b1 by (simp add: jsSlice_def)
    moreover have "jsSlice ml mi (mi + k) ! n = ml ! (mi + n)"
      using that b2 by (simp add: jsSlice_def)
    ultimately show ?thesis using eq by simp
  qed
  have "concat (map originalEntry us) = map (\<lambda>n. (oi + n, ol ! (oi + n))) [0..<k]"
    unfolding us_def map_map by (rule concat_map_single) (simp add: same)
  then have o: "concat (map originalEntry us) = enumLines ol oi (oi + k)"
    by (simp add: enumLines_shift)
  have "concat (map modifiedEntry us) = map (\<lambda>n. (mi + n, ml ! (mi + n))) [0..<k]"
    unfolding us_def map_map by (rule concat_map_single) simp
  then have m: "concat (map modifiedEntry us) = enumLines ml mi (mi + k)"
    by (simp add: enumLines_shift)
  from r o m show ?thesis by blast
qed

lemma hunkLoop_sides:
  "validScript ol ml oi mi hs \<Longrightarrow>
   \<exists>infos. hunkLoop d rx ol ml oi mi hs = Some infos \<and>
     concat (map originalEntry infos) = enumLines ol oi (length ol) \<and>
     concat (map modifiedEntry infos) = enumLines ml mi (length ml)"
proof (induction hs arbitrary: oi mi)
  case Nil
  then have le: "oi \<le> length ol" "mi \<le> length ml" and dr: "drop oi ol = drop mi ml" by auto
  define k where "k = length ol - oi"
  from dr have "length (drop oi ol) = length (drop mi ml)" by simp
  then have k2: "k = length ml - mi" by (simp add: k_def)
  have "\<exists>us. unchangedWhile ml oi mi (length ol) (length ml) = Some us \<and>
           concat (map originalEntry us) = enumLines ol oi (oi + k) \<and>
           concat (map modifiedEntry us) = enumLines ml mi (mi + k)"
  proof (rule unchanged_run_sides)
    show "jsSlice ol oi (oi + k) = jsSlice ml mi (mi + k)"
      using dr by (simp add: jsSlice_def)
    show "oi + k \<le> length ol" using le by (simp add: k_def)
    show "mi + k \<le> length ml" using le by (simp add: k2)
    show "k = min (length ol - oi) (length ml - mi)" using k2 by (simp add: k_def)
  qed
  moreover have "oi + k = length ol" "mi + k = length ml" using le k2 by (auto simp: k_def)
  ultimately show ?case by simp
next
  case (Cons h hs)
  obtain sx ex sy ey where h: "h = (sx, ex, sy, ey)" by (cases h) auto
  from Cons.prems h have v: "oi \<le> sx" "mi \<le> sy" "sx \<le> ex" "ex \<le> length ol" "sy \<le> ey"
    "ey \<le> length ml" "jsSlice ol oi sx = jsSlice ml mi sy" "sx - oi = sy - mi"
    "validScript ol ml ex ey hs" by auto
  define k where "k = sx - oi"
  have sxk: "oi + k = sx" "mi + k = sy" using v by (auto simp: k_def)
  have "\<exists>us. unchangedWhile ml oi mi sx sy = Some us \<and>
           concat (map originalEntry us) = enumLines ol oi (oi + k) \<and>
           concat (map modifiedEntry us) = enumLines ml mi (mi + k)"
  proof (rule unchanged_run_sides)
    show "jsSlice ol oi (oi + k) = jsSlice ml mi (mi + k)" using v sxk by simp
    show "oi + k \<le> length ol" using v sxk by simp
    show "mi + k \<le> length ml" using v sxk by simp
    show "k = min (sx - oi) (sy - mi)" using v by (simp add: k_def)
  qed
  then obtain us where us: "unchangedWhile ml oi mi sx sy = Some us"
    "concat (map originalEntry us) = enumLines ol oi sx"
    "concat (map modifiedEntry us) = enumLines ml mi sy"
    using sxk by auto
  from applyLineHunk_sides [OF v(3) v(4) v(5) v(6)] obtain cs where
    cs: "applyLineHunk d rx ol ml (sx, ex, sy, ey) = Some cs"
    "concat (map originalEntry cs) = enumLines ol sx ex"
    "concat (map modifiedEntry cs) = enumLines ml sy ey" by blast
  from Cons.IH [OF v(9)] obtain rest where
    rest: "hunkLoop d rx ol ml ex ey hs = Some rest"
    "concat (map originalEntry rest) = enumLines ol ex (length ol)"
    "concat (map modifiedEntry rest) = enumLines ml ey (length ml)" by blast
  have r: "hunkLoop d rx ol ml oi mi (h # hs) = Some (us @ cs @ rest)"
    using us(1) cs(1) rest(1) by (simp add: h)
  have "concat (map originalEntry (us @ cs @ rest)) = enumLines ol oi (length ol)"
    using v by (simp add: us cs rest enumLines_append)
  moreover have "concat (map modifiedEntry (us @ cs @ rest)) = enumLines ml mi (length ml)"
    using v by (simp add: us cs rest enumLines_append)
  ultimately show ?case using r by blast
qed

lemma foldl_pushLineInfo:
  "foldl pushLineInfo info xs =
     \<lparr>modifiedLines = modifiedLines info @ filter isModifiedInfo xs,
      removedLines = removedLines info @ filter isRemovedInfo xs,
      addedLines = addedLines info @ filter isAddedInfo xs,
      unchangedLines = unchangedLines info @ filter isUnchangedInfo xs\<rparr>"
proof (induction xs arbitrary: info)
  case Nil
  then show ?case by simp
next
  case (Cons x xs)
  show ?case by (cases x) (simp_all add: Cons.IH)
qed

lemma mset_original_partition:
  "mset (concat (map originalEntry
      (filter isUnchangedInfo xs @ filter isRemovedInfo xs @ filter isModifiedInfo xs))) =
   mset (concat (map originalEntry xs))"
proof (induction xs)
  case Nil
  then show ?case by simp
next
  case (Cons x xs)
  then show ?case by (cases x) simp_all
qed

lemma mset_modified_partition:
  "mset (concat (map modifiedEntry
      (filter isUnchangedInfo xs @ filter isAddedInfo xs @ filter isModifiedInfo xs))) =
   mset (concat (map modifiedEntry xs))"
proof (induction xs)
  case Nil
  then show ?case by simp
next
  case (Cons x xs)
  then show ?case by (cases x) simp_all
qed

lemma filter_key_single:
  assumes "distinct (map f ys)" "k \<in> set ys"
  shows "filter (\<lambda>x. f k = f x) ys = [k]"
  using assms
proof (induction ys)
  case Nil
  then show ?case by simp
next
  case (Cons y ys)
  show ?case
  proof (cases "k = y")
    case True
    have "filter (\<lambda>x. f y = f x) ys = []"
      using Cons.prems(1) by (auto simp: filter_empty_conv)
    with True show ?thesis by simp
  next
    case False
    with Cons.prems have kin: "k \<in> set ys" by simp
    with Cons.prems(1) have "f k \<noteq> f y" by (metis distinct.simps(2) image_eqI list.simps(9) set_map)
    with Cons.IH kin Cons.prems(1) show ?thesis by simp
  qed
qed

lemma sort_key_unique:
  assumes m: "mset xs = mset ys" and s: "sorted (map f ys)" and d: "distinct (map f ys)"
  shows "sort_key f xs = ys"
proof (rule properties_for_sort_key)
  show "mset ys = mset xs" using m by simp
  show "sorted (map f ys)" by (rule s)
  fix k assume k: "k \<in> set ys"
  have dx: "distinct (map f xs)"
  proof -
    have "mset (map f xs) = mset (map f ys)" using m by (metis mset_map)
    then show ?thesis using d by (metis distinct_count_atmost_1 set_mset_mset)
  qed
  have kx: "k \<in> set xs" using k m by (metis set_mset_mset)
  show "filter (\<lambda>x. f k = f x) ys = filter (\<lambda>x. f k = f x) xs"
    by (simp add: filter_key_single [OF d k] filter_key_single [OF dx kx])
qed

lemma enumLines_fst: "map fst (enumLines xs a b) = [a..<b]"
  by (simp add: enumLines_def comp_def)

lemma enumLines_snd_all: "map snd (enumLines xs 0 (length xs)) = xs"
  by (simp add: enumLines_def comp_def map_nth)

lemma sort_enumLines:
  "mset es = mset (enumLines xs 0 (length xs)) \<Longrightarrow> map snd (sort_key fst es) = xs"
proof -
  assume m: "mset es = mset (enumLines xs 0 (length xs))"
  have "sort_key fst es = enumLines xs 0 (length xs)"
    by (rule sort_key_unique [OF m]) (simp_all add: enumLines_fst)
  then show ?thesis by (simp add: enumLines_snd_all)
qed

lemma getDecorationInfo_sides:
  assumes "validScript ol ml 0 0 (d ol ml)"
  shows "\<exists>infos. computeDiffOperations d ol ml rx = Some infos \<and>
      originalProjection (foldl pushLineInfo emptyDecorationInfo infos) = ol \<and>
      modifiedProjection (foldl pushLineInfo emptyDecorationInfo infos) = ml"
proof -
  from hunkLoop_sides [OF assms] obtain infos where
    r: "hunkLoop d rx ol ml 0 0 (d ol ml) = Some infos"
    and o: "concat (map originalEntry infos) = enumLines ol 0 (length ol)"
    and m: "concat (map modifiedEntry infos) = enumLines ml 0 (length ml)" by blast
  have "originalProjection (foldl pushLineInfo emptyDecorationInfo infos) = ol"
    unfolding originalProjection_def foldl_pushLineInfo
    by (rule sort_enumLines) (simp add: emptyDecorationInfo_def mset_original_partition o del: mset_append map_append concat_append)
  moreover have "modifiedProjection (foldl pushLineInfo emptyDecorationInfo infos) = ml"
    unfolding modifiedProjection_def foldl_pushLineInfo
    by (rule sort_enumLines) (simp add: emptyDecorationInfo_def mset_modified_partition m del: mset_append map_append concat_append)
  ultimately show ?thesis using r by (simp add: computeDiffOperations_def)
qed

text \<open>
  Claim C1 (diff round trip). Let the differ return a correct script for the lines of \<open>A\<close>
  and \<open>B\<close>. Then \<open>getDecorationInfo\<close> returns a decoration; the texts of its unchanged,
  removed and modified (\<open>oldText\<close>) entries, taken in the order of their original line
  numbers and joined with the newline detected in \<open>A\<close>, are exactly \<open>A\<close>; the texts of its
  unchanged, added and modified (\<open>newText\<close>) entries, taken in the order of their modified
  line numbers and joined with the newline detected in \<open>B\<close>, are exactly \<open>B\<close>.
\<close>

theorem diff_round_trip:
  assumes "validScript (jsSplit (nl A) A) (jsSplit (nl B) B) 0 0
             (d (jsSplit (nl A) A) (jsSplit (nl B) B))"
  shows "\<exists>info. getDecorationInfo d nl A B chunkRegex = Some info \<and>
           jsJoin (nl A) (originalProjection info) = A \<and>
           jsJoin (nl B) (modifiedProjection info) = B"
proof -
  from getDecorationInfo_sides [of "jsSplit (nl A) A" "jsSplit (nl B) B" d chunkRegex, OF assms]
  obtain infos where
    "computeDiffOperations d (jsSplit (nl A) A) (jsSplit (nl B) B) chunkRegex = Some infos"
    "originalProjection (foldl pushLineInfo emptyDecorationInfo infos) = jsSplit (nl A) A"
    "modifiedProjection (foldl pushLineInfo emptyDecorationInfo infos) = jsSplit (nl B) B"
    by blast
  then show ?thesis
    by (simp add: getDecorationInfo_def Let_def jsJoin_jsSplit)
qed

theorem diff_round_trip_witness:
  "validScript
     (jsSplit (getNewLineChar [CHR ''a'', CHR 0x0A, CHR ''b'', CHR 0x0A, CHR ''c''])
        [CHR ''a'', CHR 0x0A, CHR ''b'', CHR 0x0A, CHR ''c''])
     (jsSplit (getNewLineChar [CHR ''a'', CHR 0x0A, CHR ''x'', CHR 0x0A, CHR ''c'', CHR 0x0A, CHR ''d''])
        [CHR ''a'', CHR 0x0A, CHR ''x'', CHR 0x0A, CHR ''c'', CHR 0x0A, CHR ''d'']) 0 0
     (lcsDiff
        (jsSplit (getNewLineChar [CHR ''a'', CHR 0x0A, CHR ''b'', CHR 0x0A, CHR ''c''])
           [CHR ''a'', CHR 0x0A, CHR ''b'', CHR 0x0A, CHR ''c''])
        (jsSplit (getNewLineChar [CHR ''a'', CHR 0x0A, CHR ''x'', CHR 0x0A, CHR ''c'', CHR 0x0A, CHR ''d''])
           [CHR ''a'', CHR 0x0A, CHR ''x'', CHR 0x0A, CHR ''c'', CHR 0x0A, CHR ''d''])) \<and>
   (\<exists>info.
      getDecorationInfo lcsDiff getNewLineChar
        [CHR ''a'', CHR 0x0A, CHR ''b'', CHR 0x0A, CHR ''c'']
        [CHR ''a'', CHR 0x0A, CHR ''x'', CHR 0x0A, CHR ''c'', CHR 0x0A, CHR ''d'']
        WORDS_AND_PUNCTUATION_REGEX = Some info \<and>
      jsJoin (getNewLineChar [CHR ''a'', CHR 0x0A, CHR ''b'', CHR 0x0A, CHR ''c''])
        (originalProjection info) = [CHR ''a'', CHR 0x0A, CHR ''b'', CHR 0x0A, CHR ''c''] \<and>
      jsJoin (getNewLineChar [CHR ''a'', CHR 0x0A, CHR ''x'', CHR 0x0A, CHR ''c'', CHR 0x0A, CHR ''d''])
        (modifiedProjection info) =
        [CHR ''a'', CHR 0x0A, CHR ''x'', CHR 0x0A, CHR ''c'', CHR 0x0A, CHR ''d''])"
proof -
  have h: "validScript
     (jsSplit (getNewLineChar [CHR ''a'', CHR 0x0A, CHR ''b'', CHR 0x0A, CHR ''c''])
        [CHR ''a'', CHR 0x0A, CHR ''b'', CHR 0x0A, CHR ''c''])
     (jsSplit (getNewLineChar [CHR ''a'', CHR 0x0A, CHR ''x'', CHR 0x0A, CHR ''c'', CHR 0x0A, CHR ''d''])
        [CHR ''a'', CHR 0x0A, CHR ''x'', CHR 0x0A, CHR ''c'', CHR 0x0A, CHR ''d'']) 0 0
     (lcsDiff
        (jsSplit (getNewLineChar [CHR ''a'', CHR 0x0A, CHR ''b'', CHR 0x0A, CHR ''c''])
           [CHR ''a'', CHR 0x0A, CHR ''b'', CHR 0x0A, CHR ''c''])
        (jsSplit (getNewLineChar [CHR ''a'', CHR 0x0A, CHR ''x'', CHR 0x0A, CHR ''c'', CHR 0x0A, CHR ''d''])
           [CHR ''a'', CHR 0x0A, CHR ''x'', CHR 0x0A, CHR ''c'', CHR 0x0A, CHR ''d'']))"
    by code_simp
  from diff_round_trip [of getNewLineChar _ _ lcsDiff WORDS_AND_PUNCTUATION_REGEX, OF h] h
  show ?thesis by blast
qed

subsection \<open>Equal texts\<close>

lemma editScript_same: "editScript xs xs = map (\<lambda>_. Keep) xs"
  by (induction xs) auto

lemma scriptHunks_keep: "scriptHunks i j None (map (\<lambda>_. Keep) xs) = []"
  by (induction xs arbitrary: i j) auto

lemma lcsDiff_same: "lcsDiff xs xs = []"
  by (simp add: lcsDiff_def editScript_same scriptHunks_keep)

text \<open>
  Claim C9 (idempotence). For a text \<open>A\<close> diffed against itself, where the differ reports
  no hunk for equal sequences, the decoration has no added, removed or modified line, and
  its unchanged lines are the lines of \<open>A\<close> in order, line \<open>i\<close> with original and modified
  line number \<open>i\<close>.
\<close>

theorem same_text_unchanged:
  assumes "d (jsSplit (nl A) A) (jsSplit (nl A) A) = []"
  shows "getDecorationInfo d nl A A chunkRegex =
     Some \<lparr>modifiedLines = [], removedLines = [], addedLines = [],
           unchangedLines =
             map (\<lambda>i. Unchanged i i (jsSplit (nl A) A ! i)) [0..<length (jsSplit (nl A) A)]\<rparr>"
proof -
  define ls where "ls = jsSplit (nl A) A"
  have "unchangedWhile ls 0 0 (length ls) (length ls) =
      Some (map (\<lambda>n. Unchanged (0 + n) (0 + n) (ls ! (0 + n))) [0..<length ls])"
    by (rule unchangedWhile_closed) simp_all
  then have c: "computeDiffOperations d ls ls chunkRegex =
      Some (map (\<lambda>i. Unchanged i i (ls ! i)) [0..<length ls])"
    using assms by (simp add: computeDiffOperations_def ls_def)
  have f: "filter isUnchangedInfo (map (\<lambda>i. Unchanged i i (ls ! i)) [0..<length ls]) =
        map (\<lambda>i. Unchanged i i (ls ! i)) [0..<length ls]"
    "filter isModifiedInfo (map (\<lambda>i. Unchanged i i (ls ! i)) [0..<length ls]) = []"
    "filter isRemovedInfo (map (\<lambda>i. Unchanged i i (ls ! i)) [0..<length ls]) = []"
    "filter isAddedInfo (map (\<lambda>i. Unchanged i i (ls ! i)) [0..<length ls]) = []"
    by (simp_all add: filter_map comp_def)
  show ?thesis
    unfolding getDecorationInfo_def Let_def ls_def [symmetric] c
    by (simp add: foldl_pushLineInfo f emptyDecorationInfo_def)
qed

theorem same_text_unchanged_witness:
  "lcsDiff (jsSplit (getNewLineChar [CHR ''a'', CHR 0x0A, CHR ''b''])
              [CHR ''a'', CHR 0x0A, CHR ''b''])
           (jsSplit (getNewLineChar [CHR ''a'', CHR 0x0A, CHR ''b''])
              [CHR ''a'', CHR 0x0A, CHR ''b'']) = [] \<and>
   getDecorationInfo lcsDiff getNewLineChar [CHR ''a'', CHR 0x0A, CHR ''b'']
     [CHR ''a'', CHR 0x0A, CHR ''b''] WORDS_AND_PUNCTUATION_REGEX =
     Some \<lparr>modifiedLines = [], removedLines = [], addedLines = [],
           unchangedLines = [Unchanged 0 0 ''a'', Unchanged 1 1 ''b'']\<rparr>"
proof -
  have h: "lcsDiff (jsSplit (getNewLineChar [CHR ''a'', CHR 0x0A, CHR ''b''])
              [CHR ''a'', CHR 0x0A, CHR ''b''])
           (jsSplit (getNewLineChar [CHR ''a'', CHR 0x0A, CHR ''b''])
              [CHR ''a'', CHR 0x0A, CHR ''b'']) = []"
    by (rule lcsDiff_same)
  have l: "jsSplit (getNewLineChar [CHR ''a'', CHR 0x0A, CHR ''b''])
              [CHR ''a'', CHR 0x0A, CHR ''b''] = [''a'', ''b'']"
    by code_simp
  have u: "[0..<length [''a'', ''b'']] = [0, Suc 0]" by code_simp
  from same_text_unchanged [of lcsDiff getNewLineChar _ WORDS_AND_PUNCTUATION_REGEX, OF h] h
  show ?thesis unfolding l u by simp
qed

subsection \<open>The granularity of the changes inside a line\<close>

text \<open>
  Claim C7 (granularity fallback). The change list of a modified line is computed with
  \<open>CHARACTER_REGEX\<close> first; it is kept if and only if it passes \<open>isSimpleLineDiff\<close>, and is
  otherwise replaced by the change list computed with the chunk regex. For the line
  \<open>abcabc\<close> changed to \<open>xbcxbc\<close> the character-level list fails the test, and the changes
  of the entry are the word-level ones: the whole old word deleted, the whole new word
  inserted.
\<close>

theorem granularity_fallback:
  "createModifiedLineInfo d ol ml originalText modifiedText chunkRegex =
     Modified ol ml originalText modifiedText
       (if isSimpleLineDiff (getModifiedLineChanges d ol ml originalText modifiedText CHARACTER_REGEX)
        then getModifiedLineChanges d ol ml originalText modifiedText CHARACTER_REGEX
        else getModifiedLineChanges d ol ml originalText modifiedText chunkRegex) \<and>
   isSimpleLineDiff
     (getModifiedLineChanges lcsDiff 0 0 ''abcabc'' ''xbcxbc'' CHARACTER_REGEX) = False \<and>
   createModifiedLineInfo lcsDiff 0 0 ''abcabc'' ''xbcxbc'' WORDS_AND_PUNCTUATION_REGEX =
     Modified 0 0 ''abcabc'' ''xbcxbc''
       [mkChange ChDelete ''abcabc'' (mkRange 0 0 0 6) (mkRange 0 0 0 0),
        mkChange ChInsert ''xbcxbc'' (mkRange 0 6 0 6) (mkRange 0 0 0 6)] \<and>
   getModifiedLineChanges lcsDiff 0 0 ''abcabc'' ''xbcxbc'' CHARACTER_REGEX \<noteq>
     [mkChange ChDelete ''abcabc'' (mkRange 0 0 0 6) (mkRange 0 0 0 0),
      mkChange ChInsert ''xbcxbc'' (mkRange 0 6 0 6) (mkRange 0 0 0 6)]"
proof -
  have a: "isSimpleLineDiff
     (getModifiedLineChanges lcsDiff 0 0 ''abcabc'' ''xbcxbc'' CHARACTER_REGEX) = False"
    by code_simp
  have b: "createModifiedLineInfo lcsDiff 0 0 ''abcabc'' ''xbcxbc'' WORDS_AND_PUNCTUATION_REGEX =
     Modified 0 0 ''abcabc'' ''xbcxbc''
       [mkChange ChDelete ''abcabc'' (mkRange 0 0 0 6) (mkRange 0 0 0 0),
        mkChange ChInsert ''xbcxbc'' (mkRange 0 6 0 6) (mkRange 0 0 0 6)]"
    by code_simp
  have c: "getModifiedLineChanges lcsDiff 0 0 ''abcabc'' ''xbcxbc'' CHARACTER_REGEX \<noteq>
     [mkChange ChDelete ''abcabc'' (mkRange 0 0 0 6) (mkRange 0 0 0 0),
      mkChange ChInsert ''xbcxbc'' (mkRange 0 6 0 6) (mkRange 0 0 0 6)]"
    by code_simp
  have g: "createModifiedLineInfo d ol ml originalText modifiedText chunkRegex =
     Modified ol ml originalText modifiedText
       (if isSimpleLineDiff (getModifiedLineChanges d ol ml originalText modifiedText CHARACTER_REGEX)
        then getModifiedLineChanges d ol ml originalText modifiedText CHARACTER_REGEX
        else getModifiedLineChanges d ol ml originalText modifiedText chunkRegex)"
    by (simp add: createModifiedLineInfo_def Let_def)
  from a b c g show ?thesis by blast
qed

subsection \<open>Line terminators inside a line\<close>

text \<open>
  Claim C2 says that the unchanged and inserted texts of a modified entry, in sequence
  order, make up its modified line, and the unchanged and deleted texts its original
  line. The code does otherwise at a text with mixed line ends. The original text is \<open>a\<close>,
  \<open>b\<close>, \<open>c\<close> on three lines ended by CR LF; in the modified text the line \<open>b\<close> is
  replaced by \<open>x\<close> LF \<open>y\<close>. Both texts are split at CR LF, so the modified line 1 is
  \<open>x\<close> LF \<open>y\<close>. The dot of \<open>CHARACTER_REGEX\<close> does not match the line feed: the changes
  of the entry are the deletion of \<open>b\<close> and the insertion of \<open>xy\<close>, and the unchanged and
  inserted texts make \<open>xy\<close>, not the modified line. Likewise for a line that holds a
  carriage return: for \<open>a\<close> CR \<open>b\<close> changed to \<open>a\<close> CR \<open>c\<close> the unchanged and deleted
  texts make \<open>ab\<close>.
\<close>

theorem line_changes_drop_terminator:
  "getDecorationInfo lcsDiff getNewLineChar
     [CHR ''a'', CHR 0x0D, CHR 0x0A, CHR ''b'', CHR 0x0D, CHR 0x0A, CHR ''c'']
     [CHR ''a'', CHR 0x0D, CHR 0x0A, CHR ''x'', CHR 0x0A, CHR ''y'', CHR 0x0D, CHR 0x0A, CHR ''c'']
     WORDS_AND_PUNCTUATION_REGEX =
     Some \<lparr>modifiedLines =
             [Modified 1 1 ''b'' [CHR ''x'', CHR 0x0A, CHR ''y'']
                [mkChange ChDelete ''b'' (mkRange 1 0 1 1) (mkRange 1 0 1 0),
                 mkChange ChInsert ''xy'' (mkRange 1 1 1 1) (mkRange 1 0 1 2)]],
           removedLines = [], addedLines = [],
           unchangedLines = [Unchanged 0 0 ''a'', Unchanged 2 2 ''c'']\<rparr> \<and>
   modifiedSideText
     [mkChange ChDelete ''b'' (mkRange 1 0 1 1) (mkRange 1 0 1 0),
      mkChange ChInsert ''xy'' (mkRange 1 1 1 1) (mkRange 1 0 1 2)] = ''xy'' \<and>
   ''xy'' \<noteq> [CHR ''x'', CHR 0x0A, CHR ''y''] \<and>
   createModifiedLineInfo lcsDiff 0 0 [CHR ''a'', CHR 0x0D, CHR ''b'']
     [CHR ''a'', CHR 0x0D, CHR ''c''] WORDS_AND_PUNCTUATION_REGEX =
     Modified 0 0 [CHR ''a'', CHR 0x0D, CHR ''b''] [CHR ''a'', CHR 0x0D, CHR ''c'']
       [mkChange ChUnchanged ''a'' (mkRange 0 0 0 1) (mkRange 0 0 0 1),
        mkChange ChDelete ''b'' (mkRange 0 1 0 2) (mkRange 0 1 0 1),
        mkChange ChInsert ''c'' (mkRange 0 2 0 2) (mkRange 0 1 0 2)] \<and>
   originalSideText
     [mkChange ChUnchanged ''a'' (mkRange 0 0 0 1) (mkRange 0 0 0 1),
      mkChange ChDelete ''b'' (mkRange 0 1 0 2) (mkRange 0 1 0 1),
      mkChange ChInsert ''c'' (mkRange 0 2 0 2) (mkRange 0 1 0 2)] = ''ab''"
  by code_simp

section \<open>The reference differ returns correct scripts\<close>

lemma applies_ins: "applies (map (\<lambda>_. Ins) ys) [] ys"
  by (induction ys) auto

lemma applies_del: "applies (map (\<lambda>_. Del) xs) xs []"
  by (induction xs) auto

lemma applies_editScript: "applies (editScript xs ys) xs ys"
proof (induction xs ys rule: editScript.induct)
  case (1 ys)
  then show ?case by (simp add: applies_ins)
next
  case (2 x xs)
  then show ?case using applies_del [of "x # xs"] by simp
next
  case (3 x xs y ys)
  then show ?case by (auto simp: Let_def)
qed

lemma jsSlice_same [simp]: "jsSlice xs a a = []"
  by (simp add: jsSlice_def)

lemma jsSlice_Suc:
  "a \<le> i \<Longrightarrow> i < length xs \<Longrightarrow> jsSlice xs a (Suc i) = jsSlice xs a i @ [xs ! i]"
proof -
  assume a: "a \<le> i" and i: "i < length xs"
  then have "Suc i - a = Suc (i - a)" by simp
  moreover have "i - a < length (drop a xs)" using a i by simp
  ultimately have "take (Suc i - a) (drop a xs) = take (i - a) (drop a xs) @ [drop a xs ! (i - a)]"
    by (simp add: take_Suc_conv_app_nth)
  then show ?thesis using a i by (simp add: jsSlice_def)
qed

lemma drop_Cons_nth: "drop i xs = x # r \<Longrightarrow> i < length xs \<and> xs ! i = x \<and> drop (Suc i) xs = r"
  by (metis Cons_nth_drop_Suc drop_eq_Nil linorder_not_le list.distinct(1) list.inject)

lemma scriptHunks_valid:
  "applies es (drop i xs) (drop j ys) \<Longrightarrow> i \<le> length xs \<Longrightarrow> j \<le> length ys \<Longrightarrow>
   (case cur of
      None \<Rightarrow> a0 \<le> i \<and> b0 \<le> j \<and> i - a0 = j - b0 \<and> jsSlice xs a0 i = jsSlice ys b0 j
    | Some (sx, ex, sy, ey) \<Rightarrow>
        ex = i \<and> ey = j \<and> a0 \<le> sx \<and> sx \<le> i \<and> b0 \<le> sy \<and> sy \<le> j \<and>
        sx - a0 = sy - b0 \<and> jsSlice xs a0 sx = jsSlice ys b0 sy) \<Longrightarrow>
   validScript xs ys a0 b0 (scriptHunks i j cur es)"
proof (induction es arbitrary: i j cur a0 b0)
  case Nil
  then have e: "drop i xs = []" "drop j ys = []" by simp_all
  then have l: "i = length xs" "j = length ys" using Nil.prems(2,3) by simp_all
  show ?case
  proof (cases cur)
    case None
    with Nil.prems(4) have c: "a0 \<le> i" "b0 \<le> j" "i - a0 = j - b0" "jsSlice xs a0 i = jsSlice ys b0 j"
      by simp_all
    then have "drop a0 xs = drop b0 ys" using l by (simp add: jsSlice_def)
    with None c l show ?thesis by simp
  next
    case (Some h)
    obtain sx ex sy ey where h: "h = (sx, ex, sy, ey)" by (cases h) auto
    with Some Nil.prems(4) l e show ?thesis by simp
  qed
next
  case (Cons e es)
  show ?case
  proof (cases e)
    case Keep
    with Cons.prems(1) obtain x xr yr where d: "drop i xs = x # xr" "drop j ys = x # yr"
      and a: "applies es xr yr"
      by (auto split: list.splits)
    from drop_Cons_nth [OF d(1)] have i: "i < length xs" "xs ! i = x" "drop (Suc i) xs = xr" by simp_all
    from drop_Cons_nth [OF d(2)] have j: "j < length ys" "ys ! j = x" "drop (Suc j) ys = yr" by simp_all
    have a': "applies es (drop (Suc i) xs) (drop (Suc j) ys)" using a i j by simp
    show ?thesis
    proof (cases cur)
      case None
      with Cons.prems(4) have c: "a0 \<le> i" "b0 \<le> j" "i - a0 = j - b0" "jsSlice xs a0 i = jsSlice ys b0 j"
        by simp_all
      have "validScript xs ys a0 b0 (scriptHunks (Suc i) (Suc j) None es)"
      proof (rule Cons.IH [OF a'])
        show "Suc i \<le> length xs" "Suc j \<le> length ys" using i j by simp_all
        show "case None of
          None \<Rightarrow> a0 \<le> Suc i \<and> b0 \<le> Suc j \<and> Suc i - a0 = Suc j - b0 \<and>
                   jsSlice xs a0 (Suc i) = jsSlice ys b0 (Suc j)
        | Some (sx, ex, sy, ey) \<Rightarrow>
            ex = Suc i \<and> ey = Suc j \<and> a0 \<le> sx \<and> sx \<le> Suc i \<and> b0 \<le> sy \<and> sy \<le> Suc j \<and>
            sx - a0 = sy - b0 \<and> jsSlice xs a0 sx = jsSlice ys b0 sy"
          using c i j by (simp add: jsSlice_Suc)
      qed
      with Keep None show ?thesis by simp
    next
      case (Some h)
      obtain sx ex sy ey where h: "h = (sx, ex, sy, ey)" by (cases h) auto
      with Some Cons.prems(4) have c: "ex = i" "ey = j" "a0 \<le> sx" "sx \<le> i" "b0 \<le> sy" "sy \<le> j"
        "sx - a0 = sy - b0" "jsSlice xs a0 sx = jsSlice ys b0 sy" by simp_all
      have "validScript xs ys i j (scriptHunks (Suc i) (Suc j) None es)"
      proof (rule Cons.IH [OF a'])
        show "Suc i \<le> length xs" "Suc j \<le> length ys" using i j by simp_all
        show "case None of
          None \<Rightarrow> i \<le> Suc i \<and> j \<le> Suc j \<and> Suc i - i = Suc j - j \<and>
                   jsSlice xs i (Suc i) = jsSlice ys j (Suc j)
        | Some (sx, ex, sy, ey) \<Rightarrow>
            ex = Suc i \<and> ey = Suc j \<and> i \<le> sx \<and> sx \<le> Suc i \<and> j \<le> sy \<and> sy \<le> Suc j \<and>
            sx - i = sy - j \<and> jsSlice xs i sx = jsSlice ys j sy"
          using i j by (simp add: jsSlice_Suc)
      qed
      with Keep Some h c i j show ?thesis by simp
    qed
  next
    case Del
    with Cons.prems(1) obtain x xr where d: "drop i xs = x # xr" and a: "applies es xr (drop j ys)"
      by (auto split: list.splits)
    from drop_Cons_nth [OF d] have i: "i < length xs" "drop (Suc i) xs = xr" by simp_all
    have a': "applies es (drop (Suc i) xs) (drop j ys)" using a i by simp
    obtain h' where h': "h' = (case cur of None \<Rightarrow> (i, Suc i, j, j)
                        | Some (sx, ex, sy, ey) \<Rightarrow> (sx, Suc ex, sy, ey))" by simp
    have "validScript xs ys a0 b0 (scriptHunks (Suc i) j (Some h') es)"
    proof (rule Cons.IH [OF a'])
      show "Suc i \<le> length xs" using i by simp
      show "j \<le> length ys" by (rule Cons.prems(3))
      show "case Some h' of
          None \<Rightarrow> a0 \<le> Suc i \<and> b0 \<le> j \<and> Suc i - a0 = j - b0 \<and>
                   jsSlice xs a0 (Suc i) = jsSlice ys b0 j
        | Some (sx, ex, sy, ey) \<Rightarrow>
            ex = Suc i \<and> ey = j \<and> a0 \<le> sx \<and> sx \<le> Suc i \<and> b0 \<le> sy \<and> sy \<le> j \<and>
            sx - a0 = sy - b0 \<and> jsSlice xs a0 sx = jsSlice ys b0 sy"
        using Cons.prems(4) h' by (auto split: option.splits)
    qed
    with Del h' show ?thesis by simp
  next
    case Ins
    with Cons.prems(1) obtain y yr where d: "drop j ys = y # yr" and a: "applies es (drop i xs) yr"
      by (auto split: list.splits)
    from drop_Cons_nth [OF d] have j: "j < length ys" "drop (Suc j) ys = yr" by simp_all
    have a': "applies es (drop i xs) (drop (Suc j) ys)" using a j by simp
    obtain h' where h': "h' = (case cur of None \<Rightarrow> (i, i, j, Suc j)
                        | Some (sx, ex, sy, ey) \<Rightarrow> (sx, ex, sy, Suc ey))" by simp
    have "validScript xs ys a0 b0 (scriptHunks i (Suc j) (Some h') es)"
    proof (rule Cons.IH [OF a'])
      show "Suc j \<le> length ys" using j by simp
      show "i \<le> length xs" by (rule Cons.prems(2))
      show "case Some h' of
          None \<Rightarrow> a0 \<le> i \<and> b0 \<le> Suc j \<and> i - a0 = Suc j - b0 \<and>
                   jsSlice xs a0 i = jsSlice ys b0 (Suc j)
        | Some (sx, ex, sy, ey) \<Rightarrow>
            ex = i \<and> ey = Suc j \<and> a0 \<le> sx \<and> sx \<le> i \<and> b0 \<le> sy \<and> sy \<le> Suc j \<and>
            sx - a0 = sy - b0 \<and> jsSlice xs a0 sx = jsSlice ys b0 sy"
        using Cons.prems(4) h' by (auto split: option.splits)
    qed
    with Ins h' show ?thesis by simp
  qed
qed

lemma lcsDiff_valid: "validScript xs ys 0 0 (lcsDiff xs ys)"
  unfolding lcsDiff_def
  by (rule scriptHunks_valid) (simp_all add: applies_editScript)

section \<open>The changes of a modified line and its two texts\<close>

text \<open>
  When the differ returns a correct script for the chunks, the unchanged and deleted texts
  of the change list make up the old chunks, and the unchanged and inserted texts the new
  chunks. A modified line is therefore made up by its changes whenever its chunks make up
  the line: always for \<open>WORDS_AND_PUNCTUATION_REGEX\<close>, and for \<open>CHARACTER_REGEX\<close> when
  the line holds no line terminator.
\<close>

lemma sideText_append [simp]:
  "originalSideText (cs @ ds) = originalSideText cs @ originalSideText ds"
  "modifiedSideText (cs @ ds) = modifiedSideText cs @ modifiedSideText ds"
  by (simp_all add: originalSideText_def modifiedSideText_def)

lemma sideText_Nil [simp]: "originalSideText [] = []" "modifiedSideText [] = []"
  by (simp_all add: originalSideText_def modifiedSideText_def)

lemma sideText_single [simp]:
  "originalSideText [c] = (if changeKind c \<noteq> ChInsert then changeText c else [])"
  "modifiedSideText [c] = (if changeKind c \<noteq> ChDelete then changeText c else [])"
  by (simp_all add: originalSideText_def modifiedSideText_def)

lemma mkChange_fields [simp]:
  "changeKind (mkChange k t r1 r2) = k" "changeText (mkChange k t r1 r2) = t"
  by (simp_all add: mkChange_def)

lemma pushUnchangedText_sides [simp]:
  "originalSideText (changes (pushUnchangedText a b t st)) = originalSideText (changes st) @ t"
  "modifiedSideText (changes (pushUnchangedText a b t st)) = modifiedSideText (changes st) @ t"
  "oldIndex (pushUnchangedText a b t st) = oldIndex st"
  "newIndex (pushUnchangedText a b t st) = newIndex st"
  by (simp_all add: pushUnchangedText_def Let_def)

lemma pushDeletion_sides [simp]:
  "originalSideText (changes (pushDeletion a b t st)) = originalSideText (changes st) @ t"
  "modifiedSideText (changes (pushDeletion a b t st)) = modifiedSideText (changes st)"
  "oldIndex (pushDeletion a b t st) = oldIndex st"
  "newIndex (pushDeletion a b t st) = newIndex st"
  by (simp_all add: pushDeletion_def Let_def)

lemma pushInsertion_sides [simp]:
  "originalSideText (changes (pushInsertion a b t st)) = originalSideText (changes st)"
  "modifiedSideText (changes (pushInsertion a b t st)) = modifiedSideText (changes st) @ t"
  "oldIndex (pushInsertion a b t st) = oldIndex st"
  "newIndex (pushInsertion a b t st) = newIndex st"
  by (simp_all add: pushInsertion_def Let_def)

lemma last_unchanged_sides:
  assumes "cs \<noteq> []" "changeKind (last cs) = ChUnchanged"
  shows "originalSideText (butlast cs) @ changeText (last cs) = originalSideText cs"
    and "modifiedSideText (butlast cs) @ changeText (last cs) = modifiedSideText cs"
proof -
  have cs: "cs = butlast cs @ [last cs]" using assms(1) by simp
  show "originalSideText (butlast cs) @ changeText (last cs) = originalSideText cs"
    by (subst (3) cs) (simp add: assms(2))
  show "modifiedSideText (butlast cs) @ changeText (last cs) = modifiedSideText cs"
    by (subst (3) cs) (simp add: assms(2))
qed

lemma pushUnchangedChunk_sides:
  assumes "oldIndex st < length oc"
  shows "originalSideText (changes (pushUnchangedChunk oc a b st)) =
           originalSideText (changes st) @ oc ! oldIndex st"
    and "modifiedSideText (changes (pushUnchangedChunk oc a b st)) =
           modifiedSideText (changes st) @ oc ! oldIndex st"
    and "oldIndex (pushUnchangedChunk oc a b st) = Suc (oldIndex st)"
    and "newIndex (pushUnchangedChunk oc a b st) = Suc (newIndex st)"
proof -
  have n: "jsNth oc (oldIndex st) = Some (oc ! oldIndex st)" using assms by (simp add: jsNth_def)
  show "oldIndex (pushUnchangedChunk oc a b st) = Suc (oldIndex st)"
    and "newIndex (pushUnchangedChunk oc a b st) = Suc (newIndex st)"
    by (simp_all add: pushUnchangedChunk_def n Let_def)
  show "originalSideText (changes (pushUnchangedChunk oc a b st)) =
           originalSideText (changes st) @ oc ! oldIndex st"
    by (simp add: pushUnchangedChunk_def n Let_def last_unchanged_sides)
  show "modifiedSideText (changes (pushUnchangedChunk oc a b st)) =
           modifiedSideText (changes st) @ oc ! oldIndex st"
    by (simp add: pushUnchangedChunk_def n Let_def last_unchanged_sides)
qed

lemma jsSlice_step:
  "i < e \<Longrightarrow> e \<le> length xs \<Longrightarrow> jsSlice xs i e = xs ! i # jsSlice xs (Suc i) e"
proof -
  assume a: "i < e" "e \<le> length xs"
  then have "drop i xs = xs ! i # drop (Suc i) xs" by (simp add: Cons_nth_drop_Suc)
  moreover from a obtain k where "e - i = Suc k" "e - Suc i = k" by (cases "e - i") auto
  ultimately show ?thesis by (simp add: jsSlice_def)
qed

lemma jsSlice_empty [simp]: "e \<le> i \<Longrightarrow> jsSlice xs i e = []"
  by (simp add: jsSlice_def)

lemma pushUnchangedUntil_sides:
  "oldIndex st \<le> tOld \<Longrightarrow> tOld \<le> length oc \<Longrightarrow> tOld - oldIndex st = tNew - newIndex st \<Longrightarrow>
   newIndex st \<le> tNew \<Longrightarrow>
   originalSideText (changes (pushUnchangedUntil oc a b tOld tNew st)) =
     originalSideText (changes st) @ concat (jsSlice oc (oldIndex st) tOld) \<and>
   modifiedSideText (changes (pushUnchangedUntil oc a b tOld tNew st)) =
     modifiedSideText (changes st) @ concat (jsSlice oc (oldIndex st) tOld) \<and>
   oldIndex (pushUnchangedUntil oc a b tOld tNew st) = tOld \<and>
   newIndex (pushUnchangedUntil oc a b tOld tNew st) = tNew"
proof (induction oc a b tOld tNew st rule: pushUnchangedUntil.induct)
  case (1 oc a b tOld tNew st)
  show ?case
  proof (cases "oldIndex st < tOld \<and> newIndex st < tNew")
    case False
    with "1.prems" have "oldIndex st = tOld" "newIndex st = tNew" by auto
    with False show ?thesis by (subst (1 2 3 4) pushUnchangedUntil.simps) simp
  next
    case True
    define st' where "st' = pushUnchangedChunk oc a b st"
    have lt: "oldIndex st < length oc" using True "1.prems" by simp
    note s = pushUnchangedChunk_sides [OF lt, of a b, folded st'_def]
    have ih: "originalSideText (changes (pushUnchangedUntil oc a b tOld tNew st')) =
        originalSideText (changes st') @ concat (jsSlice oc (oldIndex st') tOld) \<and>
      modifiedSideText (changes (pushUnchangedUntil oc a b tOld tNew st')) =
        modifiedSideText (changes st') @ concat (jsSlice oc (oldIndex st') tOld) \<and>
      oldIndex (pushUnchangedUntil oc a b tOld tNew st') = tOld \<and>
      newIndex (pushUnchangedUntil oc a b tOld tNew st') = tNew"
      unfolding st'_def
    proof (rule "1.IH" [OF True])
      show "oldIndex (pushUnchangedChunk oc a b st) \<le> tOld"
        using True s(3) by (simp add: st'_def)
      show "tOld \<le> length oc" by (rule "1.prems"(2))
      show "tOld - oldIndex (pushUnchangedChunk oc a b st) = tNew - newIndex (pushUnchangedChunk oc a b st)"
        using True "1.prems"(3) s(3,4) by (simp add: st'_def)
      show "newIndex (pushUnchangedChunk oc a b st) \<le> tNew"
        using True s(4) by (simp add: st'_def)
    qed
    have u: "pushUnchangedUntil oc a b tOld tNew st = pushUnchangedUntil oc a b tOld tNew st'"
      using True by (subst pushUnchangedUntil.simps) (simp add: st'_def)
    have sl: "jsSlice oc (oldIndex st) tOld = oc ! oldIndex st # jsSlice oc (Suc (oldIndex st)) tOld"
      using True "1.prems"(2) by (intro jsSlice_step) auto
    show ?thesis unfolding u using ih by (simp add: s sl)
  qed
qed

lemma commonWhitespace_take:
  "take (commonWhitespace xs ys) xs = take (commonWhitespace xs ys) ys \<and>
   commonWhitespace xs ys \<le> length xs \<and> commonWhitespace xs ys \<le> length ys"
  by (induction xs ys rule: commonWhitespace.induct) auto

lemma hunk_pieces:
  fixes del ins :: string
  defines "p \<equiv> commonPrefixLength del ins"
  defines "s \<equiv> commonSuffixLength p del ins"
  shows "jsSlice del 0 p @ jsSlice del p (length del - s) @ drop (length del - s) del = del"
    and "jsSlice del 0 p @ jsSlice ins p (length ins - s) @ drop (length del - s) del = ins"
proof -
  have p: "take p del = take p ins" "p \<le> length del" "p \<le> length ins"
    using commonWhitespace_take [of del ins] by (simp_all add: p_def commonPrefixLength_def)
  have s: "take s (rev (drop p del)) = take s (rev (drop p ins))"
    "s \<le> length del - p" "s \<le> length ins - p"
    using commonWhitespace_take [of "rev (drop p del)" "rev (drop p ins)"]
    by (simp_all add: s_def commonSuffixLength_def)
  have "rev (drop (length (drop p del) - s) (drop p del)) = rev (drop (length (drop p ins) - s) (drop p ins))"
    using s by (simp add: take_rev)
  then have "drop (length (drop p del) - s) (drop p del) = drop (length (drop p ins) - s) (drop p ins)"
    by simp
  then have suf: "drop (length del - s) del = drop (length ins - s) ins"
    using p s by (simp add: add.commute)
  have split3: "take (length xs - s - p) (drop p xs) @ drop (length xs - s) xs = drop p xs"
    if "s \<le> length xs - p" "p \<le> length xs" for xs :: string
  proof -
    define n where "n = length xs - s - p"
    have e: "n + p = length xs - s" using that unfolding n_def by arith
    have "take n (drop p xs) @ drop n (drop p xs) = drop p xs"
      by (rule append_take_drop_id)
    moreover have "drop n (drop p xs) = drop (length xs - s) xs"
      unfolding drop_drop e ..
    ultimately show ?thesis unfolding n_def by (simp only:)
  qed
  have d: "take p del @ take (length del - s - p) (drop p del) @ drop (length del - s) del = del"
    using split3 [OF s(2) p(2)] by simp
  have i: "take p ins @ take (length ins - s - p) (drop p ins) @ drop (length ins - s) ins = ins"
    using split3 [OF s(3) p(3)] by simp
  show "jsSlice del 0 p @ jsSlice del p (length del - s) @ drop (length del - s) del = del"
    using d by (simp add: jsSlice_def)
  show "jsSlice del 0 p @ jsSlice ins p (length ins - s) @ drop (length del - s) del = ins"
    using i p(1) suf by (simp add: jsSlice_def)
qed

lemma jsSlice_append:
  "a \<le> b \<Longrightarrow> b \<le> c \<Longrightarrow> jsSlice xs a b @ jsSlice xs b c = jsSlice xs a c"
proof -
  assume ab: "a \<le> b" and bc: "b \<le> c"
  have "take (b - a) (drop a xs) @ take (c - b) (drop (b - a) (drop a xs)) =
        take (b - a + (c - b)) (drop a xs)"
    by (simp add: take_add)
  moreover have "b - a + (c - b) = c - a" "b - a + a = b" using ab bc by simp_all
  ultimately show ?thesis by (simp add: jsSlice_def)
qed

lemma applyChunkHunk_sides:
  assumes b: "oldIndex st \<le> sx" "sx \<le> ex" "ex \<le> length oc"
             "newIndex st \<le> sy" "sy \<le> ey" "ey \<le> length nc"
    and e: "sx - oldIndex st = sy - newIndex st"
           "jsSlice oc (oldIndex st) sx = jsSlice nc (newIndex st) sy"
  shows "originalSideText (changes (applyChunkHunk oc nc a b' (sx, ex, sy, ey) st)) =
           originalSideText (changes st) @ concat (jsSlice oc (oldIndex st) ex) \<and>
         modifiedSideText (changes (applyChunkHunk oc nc a b' (sx, ex, sy, ey) st)) =
           modifiedSideText (changes st) @ concat (jsSlice nc (newIndex st) ey) \<and>
         oldIndex (applyChunkHunk oc nc a b' (sx, ex, sy, ey) st) = ex \<and>
         newIndex (applyChunkHunk oc nc a b' (sx, ex, sy, ey) st) = ey"
proof -
  define st1 where "st1 = pushUnchangedUntil oc a b' sx sy st"
  define del where "del = concat (jsSlice oc sx ex)"
  define ins where "ins = concat (jsSlice nc sy ey)"
  define st2 where "st2 = st1\<lparr>oldIndex := ex, newIndex := ey\<rparr>"
  define p where "p = commonPrefixLength del ins"
  define s where "s = commonSuffixLength p del ins"
  define st3 where "st3 = (if p > 0 then pushUnchangedText a b' (jsSlice del 0 p) st2 else st2)"
  define delCore where "delCore = jsSlice del p (length del - s)"
  define st4 where "st4 = (if delCore \<noteq> [] then pushDeletion a b' delCore st3 else st3)"
  define insCore where "insCore = jsSlice ins p (length ins - s)"
  define st5 where "st5 = (if insCore \<noteq> [] then pushInsertion a b' insCore st4 else st4)"
  define st6 where "st6 = (if s > 0 then pushUnchangedText a b' (drop (length del - s) del) st5 else st5)"
  have r: "applyChunkHunk oc nc a b' (sx, ex, sy, ey) st =
      (if del = [] \<and> ins = [] then st2 else st6)"
    unfolding applyChunkHunk_def Let_def st1_def del_def ins_def st2_def p_def s_def st3_def
      delCore_def st4_def insCore_def st5_def st6_def
    by simp
  have u: "originalSideText (changes st1) =
             originalSideText (changes st) @ concat (jsSlice oc (oldIndex st) sx)"
    "modifiedSideText (changes st1) =
             modifiedSideText (changes st) @ concat (jsSlice oc (oldIndex st) sx)"
    using pushUnchangedUntil_sides [of st sx oc sy a b'] b e
    by (simp_all add: st1_def)
  have so: "concat (jsSlice oc (oldIndex st) ex) = concat (jsSlice oc (oldIndex st) sx) @ del"
    unfolding del_def using jsSlice_append [OF b(1) b(2), of oc] by (metis concat_append)
  have sn: "concat (jsSlice nc (newIndex st) ey) = concat (jsSlice oc (oldIndex st) sx) @ ins"
    unfolding ins_def e(2) using jsSlice_append [OF b(4) b(5), of nc] by (metis concat_append)
  have c2: "changes st2 = changes st1" by (simp add: st2_def)
  have p3: "jsSlice del 0 p = [] " if "\<not> p > 0" using that by simp
  have o3: "originalSideText (changes st3) = originalSideText (changes st1) @ jsSlice del 0 p"
    and m3: "modifiedSideText (changes st3) = modifiedSideText (changes st1) @ jsSlice del 0 p"
    by (simp_all add: st3_def c2)
  have o4: "originalSideText (changes st4) = originalSideText (changes st3) @ delCore"
    and m4: "modifiedSideText (changes st4) = modifiedSideText (changes st3)"
    by (simp_all add: st4_def)
  have o5: "originalSideText (changes st5) = originalSideText (changes st4)"
    and m5: "modifiedSideText (changes st5) = modifiedSideText (changes st4) @ insCore"
    by (simp_all add: st5_def)
  have d0: "drop (length del - s) del = []" if "\<not> s > 0" using that by simp
  have o6: "originalSideText (changes st6) = originalSideText (changes st5) @ drop (length del - s) del"
    and m6: "modifiedSideText (changes st6) = modifiedSideText (changes st5) @ drop (length del - s) del"
    by (simp_all add: st6_def)
  have pieces: "jsSlice del 0 p @ delCore @ drop (length del - s) del = del"
    "jsSlice del 0 p @ insCore @ drop (length del - s) del = ins"
    unfolding delCore_def insCore_def s_def p_def by (rule hunk_pieces)+
  have o: "originalSideText (changes st6) = originalSideText (changes st1) @ del"
    using pieces(1) by (simp add: o6 o5 o4 o3)
  have m: "modifiedSideText (changes st6) = modifiedSideText (changes st1) @ ins"
    using pieces(2) by (simp add: m6 m5 m4 m3)
  have i6: "oldIndex st6 = ex" "newIndex st6 = ey"
    by (simp_all add: st6_def st5_def st4_def st3_def st2_def)
  have i2: "oldIndex st2 = ex" "newIndex st2 = ey" by (simp_all add: st2_def)
  show ?thesis
  proof (cases "del = [] \<and> ins = []")
    case True
    then have "applyChunkHunk oc nc a b' (sx, ex, sy, ey) st = st2" using r by simp
    with True show ?thesis by (simp add: c2 u so sn i2)
  next
    case False
    then have "applyChunkHunk oc nc a b' (sx, ex, sy, ey) st = st6" using r by auto
    then show ?thesis by (simp add: o m u so sn i6)
  qed
qed

lemma pushRemaining_sides:
  "drop (oldIndex st) oc = drop (newIndex st) nc \<Longrightarrow>
   originalSideText (changes (pushRemaining oc nc a b st)) =
     originalSideText (changes st) @ concat (drop (oldIndex st) oc) \<and>
   modifiedSideText (changes (pushRemaining oc nc a b st)) =
     modifiedSideText (changes st) @ concat (drop (oldIndex st) oc)"
proof (induction oc nc a b st rule: pushRemaining.induct)
  case (1 oc nc a b st)
  show ?case
  proof (cases "oldIndex st < length oc \<and> newIndex st < length nc")
    case False
    have "length (drop (oldIndex st) oc) = length (drop (newIndex st) nc)"
      using "1.prems" by simp
    with False have "drop (oldIndex st) oc = []" by auto
    with False show ?thesis by (subst (1 2) pushRemaining.simps) simp
  next
    case True
    define t where "t = oc ! oldIndex st"
    define st' where "st' = (if t \<noteq> [] then pushUnchangedText a b t st else st)"
    define st'' where "st'' = st'\<lparr>oldIndex := Suc (oldIndex st), newIndex := Suc (newIndex st)\<rparr>"
    have u: "pushRemaining oc nc a b st = pushRemaining oc nc a b st''"
      using True by (subst pushRemaining.simps) (simp add: Let_def t_def st'_def st''_def)
    have d: "drop (oldIndex st) oc = t # drop (Suc (oldIndex st)) oc"
      using True by (simp add: t_def Cons_nth_drop_Suc)
    have d2: "drop (newIndex st) nc = nc ! newIndex st # drop (Suc (newIndex st)) nc"
      using True by (simp add: Cons_nth_drop_Suc)
    from "1.prems" d d2 have dd: "drop (Suc (oldIndex st)) oc = drop (Suc (newIndex st)) nc"
      by simp
    have ih: "originalSideText (changes (pushRemaining oc nc a b st'')) =
        originalSideText (changes st'') @ concat (drop (oldIndex st'') oc) \<and>
      modifiedSideText (changes (pushRemaining oc nc a b st'')) =
        modifiedSideText (changes st'') @ concat (drop (oldIndex st'') oc)"
      unfolding st''_def st'_def t_def
      by (rule "1.IH" [OF True refl refl]) (simp add: dd)
    have s: "originalSideText (changes st'') = originalSideText (changes st) @ t"
      "modifiedSideText (changes st'') = modifiedSideText (changes st) @ t"
      "oldIndex st'' = Suc (oldIndex st)"
      by (simp_all add: st''_def st'_def)
    show ?thesis unfolding u using ih by (simp add: s d)
  qed
qed

lemma foldl_hunks_sides:
  "validScript oc nc (oldIndex st) (newIndex st) hs \<Longrightarrow>
   originalSideText (changes (pushRemaining oc nc a b (foldl (\<lambda>st h. applyChunkHunk oc nc a b h st) st hs))) =
     originalSideText (changes st) @ concat (drop (oldIndex st) oc) \<and>
   modifiedSideText (changes (pushRemaining oc nc a b (foldl (\<lambda>st h. applyChunkHunk oc nc a b h st) st hs))) =
     modifiedSideText (changes st) @ concat (drop (newIndex st) nc)"
proof (induction hs arbitrary: st)
  case Nil
  then have d: "drop (oldIndex st) oc = drop (newIndex st) nc" by simp
  from pushRemaining_sides [OF d, of a b] d show ?case by simp
next
  case (Cons h hs)
  obtain sx ex sy ey where h: "h = (sx, ex, sy, ey)" by (cases h) auto
  from Cons.prems h have v: "oldIndex st \<le> sx" "sx \<le> ex" "ex \<le> length oc"
    "newIndex st \<le> sy" "sy \<le> ey" "ey \<le> length nc"
    "sx - oldIndex st = sy - newIndex st"
    "jsSlice oc (oldIndex st) sx = jsSlice nc (newIndex st) sy"
    "validScript oc nc ex ey hs" by auto
  define st' where "st' = applyChunkHunk oc nc a b (sx, ex, sy, ey) st"
  from applyChunkHunk_sides [OF v(1-8), of a b]
  have s: "originalSideText (changes st') =
           originalSideText (changes st) @ concat (jsSlice oc (oldIndex st) ex)"
    "modifiedSideText (changes st') =
           modifiedSideText (changes st) @ concat (jsSlice nc (newIndex st) ey)"
    "oldIndex st' = ex" "newIndex st' = ey"
    by (simp_all add: st'_def)
  have "validScript oc nc (oldIndex st') (newIndex st') hs" using v(9) s by simp
  from Cons.IH [OF this]
  have ih: "originalSideText (changes (pushRemaining oc nc a b (foldl (\<lambda>st h. applyChunkHunk oc nc a b h st) st' hs))) =
     originalSideText (changes st') @ concat (drop ex oc)"
    "modifiedSideText (changes (pushRemaining oc nc a b (foldl (\<lambda>st h. applyChunkHunk oc nc a b h st) st' hs))) =
     modifiedSideText (changes st') @ concat (drop ey nc)"
    using s by simp_all
  have j1: "jsSlice oc (oldIndex st) ex @ drop ex oc = drop (oldIndex st) oc"
  proof -
    have "oldIndex st \<le> ex" using v by simp
    then have "ex - oldIndex st + oldIndex st = ex" by simp
    then have "drop ex oc = drop (ex - oldIndex st) (drop (oldIndex st) oc)" by simp
    then show ?thesis unfolding jsSlice_def by (simp only: append_take_drop_id)
  qed
  have j2: "jsSlice nc (newIndex st) ey @ drop ey nc = drop (newIndex st) nc"
  proof -
    have "newIndex st \<le> ey" using v by simp
    then have "ey - newIndex st + newIndex st = ey" by simp
    then have "drop ey nc = drop (ey - newIndex st) (drop (newIndex st) nc)" by simp
    then show ?thesis unfolding jsSlice_def by (simp only: append_take_drop_id)
  qed
  have c1: "concat (jsSlice oc (oldIndex st) ex) @ concat (drop ex oc) = concat (drop (oldIndex st) oc)"
    using j1 by (metis concat_append)
  have c2: "concat (jsSlice nc (newIndex st) ey) @ concat (drop ey nc) = concat (drop (newIndex st) nc)"
    using j2 by (metis concat_append)
  show ?case
    using ih c1 c2 by (simp add: h st'_def [symmetric] s)
qed

lemma computeLineChanges_sides:
  assumes "validScript oc nc 0 0 (d oc nc)"
  shows "originalSideText (computeLineChanges d oc nc a b) = concat oc"
    and "modifiedSideText (computeLineChanges d oc nc a b) = concat nc"
  using foldl_hunks_sides [of oc nc
      "\<lparr>changes = [], originalOffset = 0, modifiedOffset = 0, oldIndex = 0, newIndex = 0\<rparr>"
      "d oc nc" a b] assms
  by (simp_all add: computeLineChanges_def Let_def)

lemma CHARACTER_REGEX_lossless:
  "\<not> list_ex isLineTerminator s \<Longrightarrow> concat (CHARACTER_REGEX s) = s"
  by (induction s) auto

lemma WORDS_AND_PUNCTUATION_REGEX_lossless: "concat (WORDS_AND_PUNCTUATION_REGEX s) = s"
  by (induction s rule: WORDS_AND_PUNCTUATION_REGEX.induct) auto

lemma modified_line_sides:
  assumes "\<not> list_ex isLineTerminator originalText" "\<not> list_ex isLineTerminator modifiedText"
    and "concat (chunkRegex originalText) = originalText"
        "concat (chunkRegex modifiedText) = modifiedText"
    and "validScript (CHARACTER_REGEX originalText) (CHARACTER_REGEX modifiedText) 0 0
           (d (CHARACTER_REGEX originalText) (CHARACTER_REGEX modifiedText))"
    and "validScript (chunkRegex originalText) (chunkRegex modifiedText) 0 0
           (d (chunkRegex originalText) (chunkRegex modifiedText))"
    and "createModifiedLineInfo d a b originalText modifiedText chunkRegex = Modified a' b' ot nt cs"
  shows "originalSideText cs = ot \<and> modifiedSideText cs = nt \<and> ot = originalText \<and> nt = modifiedText"
  using assms
  by (auto simp: createModifiedLineInfo_def Let_def getModifiedLineChanges_def
        splitLineIntoChunks_def computeLineChanges_sides CHARACTER_REGEX_lossless
        split: if_splits)

section \<open>Properties of the reviewer\<close>

lemma reflect_fields [simp]:
  "turnCompletes (reflect E names st) = turnCompletes st"
  "subscribed (reflect E names st) = subscribed st"
  "completions (reflect E names st) = completions st"
  "statsLoop (reflect E names st) = statsLoop st"
  "statsContext (reflect E names st) = statsContext st"
  by (simp_all add: reflect_def Let_def)

lemma reflect_Nil [simp]: "reflect E [] st = st"
  by (simp add: reflect_def)

lemma notifyTurnComplete_fields [simp]:
  "turnCompletes (notifyTurnComplete st) = turnCompletes st @ subscribed st"
  "subscribed (notifyTurnComplete st) = subscribed st"
  "contextItems (notifyTurnComplete st) = contextItems st"
  "completions (notifyTurnComplete st) = completions st"
  "statsLoop (notifyTurnComplete st) = statsLoop st"
  "statsContext (notifyTurnComplete st) = statsContext st"
  by (simp_all add: notifyTurnComplete_def)

lemma runNonMcpTools_closed:
  "runNonMcpTools t ts st =
     (if abortedAtTools t then (map (\<lambda>tool. []) ts, st)
      else (map (toolItems t) ts,
            st\<lparr>completions := completions st @ concat (map (toolReports t) ts)\<rparr>))"
proof (induction ts arbitrary: st)
  case Nil
  then show ?case by simp
next
  case (Cons tool ts)
  show ?case
  proof (cases "toolRun t tool")
    case (Inl e)
    then have "toolItems t tool = []" "toolReports t tool = [(tag tool, Some e)]"
      by (simp_all add: toolItems_def toolReports_def)
    with Inl show ?thesis by (simp add: Cons.IH)
  next
    case (Inr items)
    then have "toolItems t tool = items" "toolReports t tool = []"
      by (simp_all add: toolItems_def toolReports_def)
    with Inr show ?thesis by (simp add: Cons.IH)
  qed
qed

lemma runMcpTools_closed:
  "runMcpTools t ts st =
     (map (toolItems t) (takeWhile (\<lambda>tool. \<not> abortedBeforeMcp t tool) ts),
      st\<lparr>completions := completions st @
            concat (map (toolReports t) (takeWhile (\<lambda>tool. \<not> abortedBeforeMcp t tool) ts))\<rparr>)"
proof (induction ts arbitrary: st)
  case Nil
  then show ?case by simp
next
  case (Cons tool ts)
  show ?case
  proof (cases "toolRun t tool")
    case (Inl e)
    then have "toolItems t tool = []" "toolReports t tool = [(tag tool, Some e)]"
      by (simp_all add: toolItems_def toolReports_def)
    with Inl show ?thesis by (simp add: Cons.IH)
  next
    case (Inr items)
    then have "toolItems t tool = items" "toolReports t tool = []"
      by (simp_all add: toolItems_def toolReports_def)
    with Inr show ?thesis by (simp add: Cons.IH)
  qed
qed

lemma concat_map_Nil [simp]: "concat (map (\<lambda>x. []) xs) = []"
  by (induction xs) auto

lemma review_closed:
  "review E tools t st =
     (case processStream (chat t) st of
        (Inl e, st1) \<Rightarrow> ([], notifyTurnComplete st1)
      | (Inr res, st1) \<Rightarrow>
          if res = [] \<or> isReadyToAnswer E res then ([], st1)
          else (fst (afterTools t tools st1),
                reflect E (rawTextExtract res (contextTag E)) (snd (afterTools t tools st1))))"
  unfolding review_def afterTools_def Let_def runNonMcpTools_closed runMcpTools_closed
  by (cases "abortedAtTools t") (simp_all split: prod.splits sum.splits)

lemma afterTools_fields [simp]:
  "turnCompletes (snd (afterTools t tools st)) = turnCompletes st"
  "subscribed (snd (afterTools t tools st)) = subscribed st"
  "contextItems (snd (afterTools t tools st)) = contextItems st"
  "statsLoop (snd (afterTools t tools st)) = statsLoop st"
  by (simp_all add: afterTools_def Let_def)

lemma subscribed_foldl_sub:
  "distinct (subscribed st) \<Longrightarrow>
   distinct (subscribed (foldl (\<lambda>s tool. sub (tag tool) s) st tools)) \<and>
   set (subscribed (foldl (\<lambda>s tool. sub (tag tool) s) st tools)) =
     set (subscribed st) \<union> tag ` set tools"
proof (induction tools arbitrary: st)
  case Nil
  then show ?case by simp
next
  case (Cons tool tools)
  have d: "distinct (subscribed (sub (tag tool) st))"
    using Cons.prems by (simp add: sub_def)
  have s: "set (subscribed (sub (tag tool) st)) = insert (tag tool) (set (subscribed st))"
    by (auto simp: sub_def)
  from Cons.IH [OF d] s show ?case by auto
qed

lemma reflect_keeps_user:
  "c \<in> set (contextItems st) \<Longrightarrow> isUserAddedItem E c \<Longrightarrow>
   c \<in> set (contextItems (reflect E names st))"
  by (simp add: reflect_def Let_def)

lemma review_keeps_user:
  "c \<in> set (contextItems st) \<Longrightarrow> isUserAddedItem E c \<Longrightarrow>
   c \<in> set (contextItems (snd (review E tools t st)))"
  by (simp add: review_closed processStream_def reflect_keeps_user
        split: chatResult.splits sum.splits)

lemma addValidItems_keeps: "c \<in> set (contextItems st) \<Longrightarrow> c \<in> set (contextItems (addValidItems new st))"
  by (simp add: addValidItems_def Let_def)

lemma reviewLoop_stop:
  "\<not> (i < maxLoops \<and> \<not> abortedAtLoop W i) \<Longrightarrow> reviewLoop E tools W maxLoops i st = st"
  by (subst reviewLoop.simps) auto

lemma reviewLoop_step:
  "i < maxLoops \<Longrightarrow> \<not> abortedAtLoop W i \<Longrightarrow>
   review E tools (turns W i) (st\<lparr>statsLoop := statsLoop st + 1\<rparr>) = (newContext, st1) \<Longrightarrow>
   reviewLoop E tools W maxLoops i st =
     (if newContext = [] then st1
      else if list_all (isUserAddedItem E) newContext then addValidItems newContext st1
      else reviewLoop E tools W maxLoops (Suc i) (addValidItems newContext st1))"
  by (subst reviewLoop.simps) (auto simp: Let_def)

lemma reviewLoop_keeps_user:
  "c \<in> set (contextItems st) \<Longrightarrow> isUserAddedItem E c \<Longrightarrow>
   c \<in> set (contextItems (reviewLoop E tools W maxLoops i st))"
proof (induction E tools W maxLoops i st rule: reviewLoop.induct)
  case (1 E tools W maxLoops i st)
  show ?case
  proof (cases "i < maxLoops \<and> \<not> abortedAtLoop W i")
    case False
    then show ?thesis using "1.prems" by (simp add: reviewLoop_stop)
  next
    case True
    obtain newContext st1 where r: "review E tools (turns W i) (st\<lparr>statsLoop := statsLoop st + 1\<rparr>) = (newContext, st1)"
      by (cases "review E tools (turns W i) (st\<lparr>statsLoop := statsLoop st + 1\<rparr>)") auto
    have k1: "c \<in> set (contextItems st1)"
      using review_keeps_user [of c "st\<lparr>statsLoop := statsLoop st + 1\<rparr>" E tools "turns W i"] "1.prems" r
      by simp
    then have k2: "c \<in> set (contextItems (addValidItems newContext st1))"
      by (rule addValidItems_keeps)
    have step: "reviewLoop E tools W maxLoops i st =
     (if newContext = [] then st1
      else if list_all (isUserAddedItem E) newContext then addValidItems newContext st1
      else reviewLoop E tools W maxLoops (Suc i) (addValidItems newContext st1))"
      using True r by (intro reviewLoop_step) auto
    show ?thesis
    proof (cases "newContext = [] \<or> list_all (isUserAddedItem E) newContext")
      case True
      with k1 k2 show ?thesis unfolding step by auto
    next
      case False
      have "c \<in> set (contextItems (reviewLoop E tools W maxLoops (Suc i) (addValidItems newContext st1)))"
      proof (rule "1.IH" [OF True r [symmetric] refl _ refl])
        show "newContext \<noteq> []" using False by simp
        show "\<not> list_all (isUserAddedItem E) newContext" using False by simp
        show "c \<in> set (contextItems (addValidItems newContext st1))" by (rule k2)
        show "isUserAddedItem E c" by (rule "1.prems"(2))
      qed
      with False show ?thesis unfolding step by simp
    qed
  qed
qed

lemma processStream_text:
  "streamedText c = Some res \<Longrightarrow> processStream c st = (Inr res, notifyTurnComplete st)"
  by (auto simp: processStream_def streamedText_def split: chatResult.splits sum.splits)

lemma processStream_no_text:
  "streamedText c = None \<Longrightarrow> \<exists>e st1. processStream c st = (Inl e, st1) \<and> contextItems st1 = contextItems st \<and> statsLoop st1 = statsLoop st"
  by (auto simp: processStream_def streamedText_def split: chatResult.splits sum.splits)

lemma reflect_context_cong:
  "contextItems st = contextItems st' \<Longrightarrow>
   contextItems (reflect E names st) = contextItems (reflect E names st')"
  by (simp add: reflect_def Let_def)

lemma reflect_no_match:
  "reviewed E names (contextItems st @
      concat (map (\<lambda>m. case m of Some fs \<Rightarrow> rev fs | None \<Rightarrow> []) (dehydratedMessages E))) = [] \<Longrightarrow>
   reflect E names st = st"
  by (simp add: reflect_def Let_def)

lemma afterTools_empty:
  assumes "\<And>tool. toolRun t tool = Inr []"
  shows "fst (afterTools t tools st) = []"
proof -
  have "toolItems t tool = []" for tool by (simp add: toolItems_def assms)
  then show ?thesis by (simp add: afterTools_def Let_def)
qed

lemma review_empty_yield:
  assumes "\<And>tool. toolRun t tool = Inr []"
  shows "fst (review E tools t st) = [] \<and>
         statsLoop (snd (review E tools t st)) = statsLoop st \<and>
         contextItems (snd (review E tools t st)) =
           contextItems (reflect E (reflectNames E (chat t)) st)"
proof (cases "streamedText (chat t)")
  case None
  from processStream_no_text [OF None, of st] obtain e st1 where
    p: "processStream (chat t) st = (Inl e, st1)" "contextItems st1 = contextItems st"
       "statsLoop st1 = statsLoop st" by blast
  then show ?thesis by (simp add: review_closed reflectNames_def None)
next
  case (Some res)
  have p: "processStream (chat t) st = (Inr res, notifyTurnComplete st)"
    by (rule processStream_text [OF Some])
  show ?thesis
  proof (cases "res = [] \<or> isReadyToAnswer E res")
    case True
    then show ?thesis by (auto simp: review_closed p reflectNames_def Some)
  next
    case False
    have c: "contextItems (reflect E (rawTextExtract res (contextTag E))
                 (snd (afterTools t tools (notifyTurnComplete st)))) =
             contextItems (reflect E (rawTextExtract res (contextTag E)) st)"
      by (rule reflect_context_cong) simp
    from False show ?thesis
      by (simp add: review_closed p reflectNames_def Some afterTools_empty [OF assms] c)
  qed
qed

lemma reflect_context:
  "contextItems (reflect E names st) =
     (if names = [] \<or> contextItems st = [] \<or>
         reviewed E names
           (contextItems st @
            concat (map (\<lambda>m. case m of Some fs \<Rightarrow> rev fs | None \<Rightarrow> [])
                      (dehydratedMessages E))) = []
      then contextItems st
      else reviewed E names
             (contextItems st @
              concat (map (\<lambda>m. case m of Some fs \<Rightarrow> rev fs | None \<Rightarrow> [])
                        (dehydratedMessages E))) @
           filter (\<lambda>c. isUserAddedItem E c \<or> itemType c = ''media'') (contextItems st))"
  by (simp add: reflect_def Let_def)

lemma review_context:
  "contextItems (snd (review E tools t st)) =
     contextItems (reflect E (reflectNames E (chat t)) st)"
proof (cases "streamedText (chat t)")
  case None
  from processStream_no_text [OF None, of st] obtain e st1 where
    p: "processStream (chat t) st = (Inl e, st1)" "contextItems st1 = contextItems st"
    by blast
  then show ?thesis by (simp add: review_closed reflectNames_def None)
next
  case (Some res)
  have p: "processStream (chat t) st = (Inr res, notifyTurnComplete st)"
    by (rule processStream_text [OF Some])
  show ?thesis
  proof (cases "res = [] \<or> isReadyToAnswer E res")
    case True
    then show ?thesis by (auto simp: review_closed p reflectNames_def Some)
  next
    case False
    have c: "contextItems (reflect E (rawTextExtract res (contextTag E))
                 (snd (afterTools t tools (notifyTurnComplete st)))) =
             contextItems (reflect E (rawTextExtract res (contextTag E)) st)"
      by (rule reflect_context_cong) simp
    from False show ?thesis
      by (simp add: review_closed p reflectNames_def Some c)
  qed
qed

lemma reports_none:
  "(\<And>tool. tool \<in> set ts \<Longrightarrow> toolReports t tool = []) \<Longrightarrow> concat (map (toolReports t) ts) = []"
  by (induction ts) auto

lemma reports_single:
  "distinct ts \<Longrightarrow> bad \<in> set ts \<Longrightarrow> toolReports t bad = [r] \<Longrightarrow>
   (\<And>tool. tool \<in> set ts \<Longrightarrow> tool \<noteq> bad \<Longrightarrow> toolReports t tool = []) \<Longrightarrow>
   concat (map (toolReports t) ts) = [r]"
proof (induction ts)
  case Nil
  then show ?case by simp
next
  case (Cons a ts)
  show ?case
  proof (cases "a = bad")
    case True
    with Cons.prems have "bad \<notin> set ts" by simp
    then have "concat (map (toolReports t) ts) = []"
      using Cons.prems(4) by (intro reports_none) auto
    with True Cons.prems(3) show ?thesis by simp
  next
    case False
    with Cons.prems have "bad \<in> set ts" "distinct ts" "toolReports t a = []" by auto
    with Cons.IH Cons.prems show ?thesis by simp
  qed
qed

subsection \<open>Turn-complete notifications\<close>

text \<open>
  The \<open>onTurnComplete\<close> calls of one iteration (one call of \<open>review\<close>): one for each
  subscribed tag when the chat call is rejected and when the stream ends, completes or is
  aborted; two for each subscribed tag when the stream raises an error, the \<open>finally\<close>
  block of \<open>processStream\<close> and the \<open>catch\<close> block of \<open>review\<close> both notifying. The
  subscribed tags are the tags of the tools, each of them once, and an iteration does not
  change them.
\<close>

lemma review_turnCompletes:
  "turnCompletes (snd (review E tools t st)) =
     turnCompletes st @
       (case chat t of
          ChatRejected e \<Rightarrow> subscribed st
        | ChatStream msgs \<Rightarrow>
            (case consumeStream msgs [] of
               Inl e \<Rightarrow> subscribed st @ subscribed st
             | Inr parts \<Rightarrow> subscribed st)) \<and>
   subscribed (snd (review E tools t st)) = subscribed st \<and>
   distinct (subscribed (newAgent tools)) \<and>
   set (subscribed (newAgent tools)) = tag ` set tools"
proof -
  have a: "turnCompletes (snd (review E tools t st)) =
     turnCompletes st @
       (case chat t of
          ChatRejected e \<Rightarrow> subscribed st
        | ChatStream msgs \<Rightarrow>
            (case consumeStream msgs [] of
               Inl e \<Rightarrow> subscribed st @ subscribed st
             | Inr parts \<Rightarrow> subscribed st))"
    by (simp add: review_closed processStream_def split: chatResult.splits sum.splits)
  have b: "subscribed (snd (review E tools t st)) = subscribed st"
    by (simp add: review_closed processStream_def split: chatResult.splits sum.splits)
  have "distinct (subscribed (newAgent tools)) \<and>
    set (subscribed (newAgent tools)) = set [] \<union> tag ` set tools"
    unfolding newAgent_def initializeMultiplexer_def
    using subscribed_foldl_sub [of "\<lparr>contextItems = [], statsContext = 0, statsLoop = 0, subscribed = [],
        turnCompletes = [], completions = []\<rparr>" tools]
    by simp
  with a b show ?thesis by simp
qed

text \<open>
  Claim C3 says that in every iteration the turn-complete notification fires exactly once
  for every subscribed tag, also when the streamed completion raises an error. The code
  does otherwise on that one path: with the three example tools subscribed and a stream
  that reports an error after its first change, every tag is notified twice in the one
  iteration, while the iterations whose stream completes, whose stream is aborted and
  whose chat call is rejected notify every tag once.
\<close>

theorem turn_complete_twice_on_stream_error:
  "turnCompletes (snd (review exCollaborators exTools exErrorTurn (newAgent exTools))) =
     [''TOOLSEARCH'', ''TOOLFILE'', ''TOOLCLI'', ''TOOLSEARCH'', ''TOOLFILE'', ''TOOLCLI''] \<and>
   count_list (turnCompletes (snd (review exCollaborators exTools exErrorTurn (newAgent exTools))))
     ''TOOLSEARCH'' = 2 \<and>
   turnCompletes (snd (review exCollaborators exTools exQuietTurn (newAgent exTools))) =
     [''TOOLSEARCH'', ''TOOLFILE'', ''TOOLCLI''] \<and>
   turnCompletes (snd (review exCollaborators exTools exAbortedTurn (newAgent exTools))) =
     [''TOOLSEARCH'', ''TOOLFILE'', ''TOOLCLI''] \<and>
   turnCompletes (snd (review exCollaborators exTools exRejectedTurn (newAgent exTools))) =
     [''TOOLSEARCH'', ''TOOLFILE'', ''TOOLCLI'']"
  by code_simp

subsection \<open>User-added items\<close>

text \<open>
  Claim C5 (user-added items are never dropped). Let \<open>isUserAddedItem\<close> hold of every item
  whose source is \<open>user\<close>, and let \<open>c\<close> be such an item. If \<open>c\<close> is in the working context
  before a reflection step, it is in the working context after it, whether the step
  replaces the context or not; and if \<open>c\<close> is in the initial context of \<open>getContext\<close>, it is
  in the context that \<open>getContext\<close> returns.
\<close>

theorem user_items_kept:
  assumes ua: "\<And>x. source x = Some User \<Longrightarrow> isUserAddedItem E x"
    and c: "source c = Some User"
  shows "(c \<in> set (contextItems st) \<longrightarrow> c \<in> set (contextItems (reflect E names st))) \<and>
         (c \<in> set ctx \<longrightarrow> c \<in> set (fst (getContext E tools W mainProcessId ctx maxLoops st0)))"
proof -
  have u: "isUserAddedItem E c" using ua c by simp
  have "c \<in> set ctx \<Longrightarrow> c \<in> set (contextItems (reviewLoop E tools W maxLoops 0 (st0\<lparr>contextItems := ctx\<rparr>)))"
    by (rule reviewLoop_keeps_user) (simp_all add: u)
  then show ?thesis
    using u by (auto simp: getContext_def Let_def reflect_keeps_user)
qed

theorem user_items_kept_witness:
  "contextItems (reflect exCollaborators [''a.ts''] ((newAgent exTools)\<lparr>contextItems := exContext\<rparr>)) =
     [exItem ''/src/a.ts'' Agentic None, exItem ''/notes/todo.md'' User None] \<and>
   exItem ''/notes/todo.md'' User None \<in>
     set (contextItems (reflect exCollaborators [''a.ts'']
            ((newAgent exTools)\<lparr>contextItems := exContext\<rparr>))) \<and>
   exItem ''/notes/todo.md'' User None \<in>
     set (fst (getContext exCollaborators exTools
                 (exQuietWorld ''<context_list>a.ts</context_list>'') ''deep-cody''
                 exContext 2 (newAgent exTools)))"
proof -
  have ua: "\<And>x. source x = Some User \<Longrightarrow> isUserAddedItem exCollaborators x"
    by (simp add: exCollaborators_def)
  have c: "source (exItem ''/notes/todo.md'' User None) = Some User"
    by (simp add: exItem_def)
  have m1: "exItem ''/notes/todo.md'' User None \<in>
      set (contextItems ((newAgent exTools)\<lparr>contextItems := exContext\<rparr>))"
    by (simp add: exContext_def)
  have m2: "exItem ''/notes/todo.md'' User None \<in> set exContext"
    by (simp add: exContext_def)
  have e: "contextItems (reflect exCollaborators [''a.ts''] ((newAgent exTools)\<lparr>contextItems := exContext\<rparr>)) =
     [exItem ''/src/a.ts'' Agentic None, exItem ''/notes/todo.md'' User None]"
    by code_simp
  from user_items_kept [OF ua c, of "(newAgent exTools)\<lparr>contextItems := exContext\<rparr>"
      "[''a.ts'']" exContext exTools "exQuietWorld ''<context_list>a.ts</context_list>''"
      "''deep-cody''" 2 "newAgent exTools"] m1 m2 e
  show ?thesis by simp
qed

subsection \<open>Tools that yield nothing\<close>

text \<open>
  Claim C6, as the code has it. Let every tool return the empty list in the first turn,
  let the abort signal not be triggered when the loop starts, and let \<open>maxLoops\<close> be
  positive. Then \<open>getContext\<close> runs exactly one iteration of the review loop, and it returns
  the working context as the reflection step of that iteration leaves it. The step works
  on the context names extracted from the response (none when the stream failed, was
  empty or was the ready sentinel) and reviews, for each name, the items of the working
  context and of the context files of earlier messages whose path ends with the name,
  except a file whose repeated read throws. When there is no name, when the initial
  context is empty, or when no item is reviewed, the initial context is returned
  unchanged; otherwise the reviewed items are returned, followed by the user-added and
  media items of the initial context.
\<close>

theorem empty_yield_one_iteration:
  assumes na: "\<not> abortedAtLoop W 0" and ml: "0 < maxLoops"
    and empty: "\<And>tool. toolRun (turns W 0) tool = Inr []"
  shows "statsLoop (snd (getContext E tools W mainProcessId ctx maxLoops st)) = statsLoop st + 1 \<and>
         fst (getContext E tools W mainProcessId ctx maxLoops st) =
           contextItems (reflect E (reflectNames E (chat (turns W 0))) (st\<lparr>contextItems := ctx\<rparr>)) \<and>
         (reviewed E (reflectNames E (chat (turns W 0)))
            (ctx @ concat (map (\<lambda>m. case m of Some fs \<Rightarrow> rev fs | None \<Rightarrow> [])
                            (dehydratedMessages E))) = [] \<longrightarrow>
          fst (getContext E tools W mainProcessId ctx maxLoops st) = ctx) \<and>
         fst (getContext E tools W mainProcessId ctx maxLoops st) =
           (if reflectNames E (chat (turns W 0)) = [] \<or> ctx = [] \<or>
               reviewed E (reflectNames E (chat (turns W 0)))
                 (ctx @ concat (map (\<lambda>m. case m of Some fs \<Rightarrow> rev fs | None \<Rightarrow> [])
                                 (dehydratedMessages E))) = []
            then ctx
            else reviewed E (reflectNames E (chat (turns W 0)))
                   (ctx @ concat (map (\<lambda>m. case m of Some fs \<Rightarrow> rev fs | None \<Rightarrow> [])
                                   (dehydratedMessages E))) @
                 filter (\<lambda>c. isUserAddedItem E c \<or> itemType c = ''media'') ctx)"
proof -
  define s0 where "s0 = st\<lparr>contextItems := ctx\<rparr>"
  define s1 where "s1 = s0\<lparr>statsLoop := statsLoop s0 + 1\<rparr>"
  obtain newContext st1 where r: "review E tools (turns W 0) s1 = (newContext, st1)"
    by (cases "review E tools (turns W 0) s1") auto
  from review_empty_yield [OF empty, of E tools s1] r
  have n: "newContext = []" and l: "statsLoop st1 = statsLoop s1"
    and c: "contextItems st1 = contextItems (reflect E (reflectNames E (chat (turns W 0))) s1)"
    by simp_all
  have loop: "reviewLoop E tools W maxLoops 0 s0 = st1"
    using reviewLoop_step [OF ml na, of E tools s0 newContext st1] r n by (simp add: s1_def)
  have c2: "contextItems st1 = contextItems (reflect E (reflectNames E (chat (turns W 0))) s0)"
    unfolding c by (rule reflect_context_cong) (simp add: s1_def)
  have g1: "statsLoop (snd (getContext E tools W mainProcessId ctx maxLoops st)) = statsLoop st + 1"
    using loop l by (simp add: getContext_def Let_def s0_def [symmetric] s1_def) (simp add: s0_def)
  have g2: "fst (getContext E tools W mainProcessId ctx maxLoops st) =
           contextItems (reflect E (reflectNames E (chat (turns W 0))) s0)"
    using loop c2 by (simp add: getContext_def Let_def s0_def [symmetric])
  have g3: "reviewed E (reflectNames E (chat (turns W 0)))
            (ctx @ concat (map (\<lambda>m. case m of Some fs \<Rightarrow> rev fs | None \<Rightarrow> [])
                            (dehydratedMessages E))) = [] \<Longrightarrow>
          fst (getContext E tools W mainProcessId ctx maxLoops st) = ctx"
    unfolding g2 using reflect_no_match [of E "reflectNames E (chat (turns W 0))" s0]
    by (simp add: s0_def)
  have g4: "fst (getContext E tools W mainProcessId ctx maxLoops st) =
           (if reflectNames E (chat (turns W 0)) = [] \<or> ctx = [] \<or>
               reviewed E (reflectNames E (chat (turns W 0)))
                 (ctx @ concat (map (\<lambda>m. case m of Some fs \<Rightarrow> rev fs | None \<Rightarrow> [])
                                 (dehydratedMessages E))) = []
            then ctx
            else reviewed E (reflectNames E (chat (turns W 0)))
                   (ctx @ concat (map (\<lambda>m. case m of Some fs \<Rightarrow> rev fs | None \<Rightarrow> [])
                                   (dehydratedMessages E))) @
                 filter (\<lambda>c. isUserAddedItem E c \<or> itemType c = ''media'') ctx)"
    unfolding g2 reflect_context by (simp add: s0_def)
  have g2': "fst (getContext E tools W mainProcessId ctx maxLoops st) =
           contextItems (reflect E (reflectNames E (chat (turns W 0))) (st\<lparr>contextItems := ctx\<rparr>))"
    using g2 by (simp add: s0_def)
  from g1 g2' g3 g4 show ?thesis by blast
qed

theorem empty_yield_one_iteration_witness:
  "statsLoop (snd (getContext exCollaborators exTools
       (exQuietWorld ''<TOOLSEARCH>query</TOOLSEARCH>'') ''deep-cody'' exContext 5
       (newAgent exTools))) = 1 \<and>
   fst (getContext exCollaborators exTools
       (exQuietWorld ''<TOOLSEARCH>query</TOOLSEARCH>'') ''deep-cody'' exContext 5
       (newAgent exTools)) = exContext"
proof -
  have na: "\<not> abortedAtLoop (exQuietWorld ''<TOOLSEARCH>query</TOOLSEARCH>'') 0"
    by (simp add: exQuietWorld_def exWorld_def)
  have ml: "0 < (5::nat)" by simp
  have empty: "\<And>tool. toolRun (turns (exQuietWorld ''<TOOLSEARCH>query</TOOLSEARCH>'') 0) tool = Inr []"
    by (simp add: exQuietWorld_def exWorld_def exTurn_def)
  have r: "reviewed exCollaborators
      (reflectNames exCollaborators (chat (turns (exQuietWorld ''<TOOLSEARCH>query</TOOLSEARCH>'') 0)))
      (exContext @ concat (map (\<lambda>m. case m of Some fs \<Rightarrow> rev fs | None \<Rightarrow> [])
                            (dehydratedMessages exCollaborators))) = []"
    by code_simp
  have s: "statsLoop (newAgent exTools) = 0" by code_simp
  from empty_yield_one_iteration [OF na ml empty, of exCollaborators exTools "''deep-cody''"
      exContext "newAgent exTools"]
  have a: "statsLoop (snd (getContext exCollaborators exTools
       (exQuietWorld ''<TOOLSEARCH>query</TOOLSEARCH>'') ''deep-cody'' exContext 5
       (newAgent exTools))) = statsLoop (newAgent exTools) + 1"
    and b: "reviewed exCollaborators
      (reflectNames exCollaborators (chat (turns (exQuietWorld ''<TOOLSEARCH>query</TOOLSEARCH>'') 0)))
      (exContext @ concat (map (\<lambda>m. case m of Some fs \<Rightarrow> rev fs | None \<Rightarrow> [])
                            (dehydratedMessages exCollaborators))) = [] \<longrightarrow>
      fst (getContext exCollaborators exTools
       (exQuietWorld ''<TOOLSEARCH>query</TOOLSEARCH>'') ''deep-cody'' exContext 5
       (newAgent exTools)) = exContext"
    by blast+
  from b r have "fst (getContext exCollaborators exTools
       (exQuietWorld ''<TOOLSEARCH>query</TOOLSEARCH>'') ''deep-cody'' exContext 5
       (newAgent exTools)) = exContext" by blast
  with a s show ?thesis by simp
qed

text \<open>
  The initial context is not always returned unchanged: the tools return the empty list,
  \<open>maxLoops\<close> is 2 and the loop runs once, but the response names the context \<open>a.ts\<close>, so
  the reflection step replaces the item found by search with its agentic copy.
\<close>

theorem empty_yield_counterexample:
  "fst (getContext exCollaborators exTools
          (exQuietWorld ''<context_list>a.ts</context_list>'') ''deep-cody''
          exContext 2 (newAgent exTools)) =
     [exItem ''/src/a.ts'' Agentic None, exItem ''/notes/todo.md'' User None] \<and>
   fst (getContext exCollaborators exTools
          (exQuietWorld ''<context_list>a.ts</context_list>'') ''deep-cody''
          exContext 2 (newAgent exTools)) \<noteq> exContext \<and>
   statsLoop (snd (getContext exCollaborators exTools
          (exQuietWorld ''<context_list>a.ts</context_list>'') ''deep-cody''
          exContext 2 (newAgent exTools))) = 1"
  by code_simp

subsection \<open>A tool that throws\<close>

text \<open>
  Claim C8 (tool failure isolation). Take an iteration whose response is neither empty nor
  the ready sentinel and in which the tools are started (the signal is not aborted). Let
  the non-MCP tool \<open>bad\<close> throw \<open>e\<close> and let no other tool throw. Then the items of every
  other non-MCP tool are in the new context that the iteration returns, and the iteration
  records exactly one completion with an error, for the tag of \<open>bad\<close>.
\<close>

theorem tool_failure_isolated:
  assumes resp: "streamedText (chat t) = Some res" "res \<noteq> []" "\<not> isReadyToAnswer E res"
    and run: "\<not> abortedAtTools t"
    and tools: "distinct tools"
    and bad: "bad \<in> set tools" "\<not> isMcpTool bad" "toolRun t bad = Inl e"
    and rest: "\<And>tool. tool \<in> set tools \<Longrightarrow> tool \<noteq> bad \<Longrightarrow> \<exists>items. toolRun t tool = Inr items"
    and other: "other \<in> set tools" "\<not> isMcpTool other" "toolRun t other = Inr items"
  shows "set items \<subseteq> set (fst (review E tools t st)) \<and>
         completions (snd (review E tools t st)) = completions st @ [(tag bad, Some e)]"
proof -
  define nonMcp where "nonMcp = filter (\<lambda>tool. \<not> isMcpTool tool) tools"
  define mcp where "mcp = takeWhile (\<lambda>tool. \<not> abortedBeforeMcp t tool) (filter isMcpTool tools)"
  have p: "processStream (chat t) st = (Inr res, notifyTurnComplete st)"
    by (rule processStream_text [OF resp(1)])
  have ok: "toolReports t tool = []" if "tool \<in> set tools" "tool \<noteq> bad" for tool
    using rest [OF that] by (auto simp: toolReports_def)
  have rb: "toolReports t bad = [(tag bad, Some e)]"
    using bad(3) by (simp add: toolReports_def)
  have r1: "concat (map (toolReports t) nonMcp) = [(tag bad, Some e)]"
  proof (rule reports_single [OF _ _ rb])
    show "distinct nonMcp" using tools by (simp add: nonMcp_def)
    show "bad \<in> set nonMcp" using bad by (simp add: nonMcp_def)
    show "toolReports t tool = []" if "tool \<in> set nonMcp" "tool \<noteq> bad" for tool
      using that ok by (simp add: nonMcp_def)
  qed
  have r2: "concat (map (toolReports t) mcp) = []"
  proof (rule reports_none)
    fix tool assume "tool \<in> set mcp"
    then have "tool \<in> set (filter isMcpTool tools)"
      unfolding mcp_def by (rule set_takeWhileD [THEN conjunct1])
    then have "tool \<in> set tools" "tool \<noteq> bad" using bad(2) by auto
    then show "toolReports t tool = []" by (rule ok)
  qed
  have "other \<in> set nonMcp" using other by (simp add: nonMcp_def)
  moreover have "toolItems t other = items" using other(3) by (simp add: toolItems_def)
  ultimately have i: "set items \<subseteq> set (concat (map (toolItems t) nonMcp))" by auto
  have f: "fst (afterTools t tools (notifyTurnComplete st)) =
      concat (map (toolItems t) nonMcp) @ concat (map (toolItems t) mcp)"
    using run by (simp add: afterTools_def Let_def nonMcp_def mcp_def)
  have c: "completions (snd (afterTools t tools (notifyTurnComplete st))) =
      completions st @ concat (map (toolReports t) nonMcp) @ concat (map (toolReports t) mcp)"
    using run by (simp add: afterTools_def Let_def nonMcp_def mcp_def)
  show ?thesis
    using resp(2,3) i by (auto simp: review_closed p f c r1 r2)
qed

theorem tool_failure_isolated_witness:
  "set [exItem ''/cli/output'' Search None] \<subseteq>
     set (fst (review exCollaborators exTools exFailingTurn (newAgent exTools))) \<and>
   completions (snd (review exCollaborators exTools exFailingTurn (newAgent exTools))) =
     completions (newAgent exTools) @ [(''TOOLFILE'', Some (Error ''ENOENT''))] \<and>
   fst (review exCollaborators exTools exFailingTurn (newAgent exTools)) =
     [exItem ''/src/found.ts'' Search None, exItem ''/cli/output'' Search None] \<and>
   completions (newAgent exTools) = []"
proof -
  have resp: "streamedText (chat exFailingTurn) = Some ''<TOOLSEARCH>query</TOOLSEARCH>''"
    "''<TOOLSEARCH>query</TOOLSEARCH>'' \<noteq> []"
    "\<not> isReadyToAnswer exCollaborators ''<TOOLSEARCH>query</TOOLSEARCH>''"
    by code_simp+
  have run: "\<not> abortedAtTools exFailingTurn" by code_simp
  have tools: "distinct exTools" by code_simp
  have bad: "\<lparr>tag = ''TOOLFILE'', isMcpTool = False\<rparr> \<in> set exTools"
    "\<not> isMcpTool \<lparr>tag = ''TOOLFILE'', isMcpTool = False\<rparr>"
    "toolRun exFailingTurn \<lparr>tag = ''TOOLFILE'', isMcpTool = False\<rparr> = Inl (Error ''ENOENT'')"
    by (simp_all add: exTools_def exFailingTurn_def exTurn_def exFailingRun_def)
  have rest: "\<And>tool. tool \<in> set exTools \<Longrightarrow> tool \<noteq> \<lparr>tag = ''TOOLFILE'', isMcpTool = False\<rparr> \<Longrightarrow>
      \<exists>items. toolRun exFailingTurn tool = Inr items"
    by (auto simp: exTools_def exFailingTurn_def exTurn_def exFailingRun_def)
  have other: "\<lparr>tag = ''TOOLCLI'', isMcpTool = False\<rparr> \<in> set exTools"
    "\<not> isMcpTool \<lparr>tag = ''TOOLCLI'', isMcpTool = False\<rparr>"
    "toolRun exFailingTurn \<lparr>tag = ''TOOLCLI'', isMcpTool = False\<rparr> =
       Inr [exItem ''/cli/output'' Search None]"
    by (simp_all add: exTools_def exFailingTurn_def exTurn_def exFailingRun_def)
  have f: "fst (review exCollaborators exTools exFailingTurn (newAgent exTools)) =
     [exItem ''/src/found.ts'' Search None, exItem ''/cli/output'' Search None]"
    by code_simp
  have c0: "completions (newAgent exTools) = []" by code_simp
  from tool_failure_isolated [OF resp run tools bad rest other, where st = "newAgent exTools"] f c0
  show ?thesis by simp
qed

subsection \<open>Items titled TOOLCONTEXT\<close>

text \<open>
  Claim C10, as the code has it. Take an iteration of \<open>reviewLoop\<close> that is entered and
  whose review returns the batch \<open>newContext\<close>. The loop stops when the unfiltered batch is
  empty, and stops after adding the valid items when every item of the unfiltered batch
  is user-added; otherwise it goes on with the next iteration. The items added to the
  working context are the items of the batch not titled \<open>TOOLCONTEXT\<close>, so a batch of
  items all titled \<open>TOOLCONTEXT\<close> adds nothing and, not being empty, does not stop the loop
  by the first test. The working context to which the items are added is the one the
  reflection step of the iteration has left: the context before the iteration when the
  response yields no context name, when that context is empty or when no item is
  reviewed, and otherwise the reviewed items followed by the user-added and media items
  of the context before the iteration.
\<close>

theorem toolcontext_not_appended:
  assumes "i < maxLoops" "\<not> abortedAtLoop W i"
    and "review E tools (turns W i) (st\<lparr>statsLoop := statsLoop st + 1\<rparr>) = (newContext, st1)"
  shows "reviewLoop E tools W maxLoops i st =
           (if newContext = [] then st1
            else if list_all (isUserAddedItem E) newContext then addValidItems newContext st1
            else reviewLoop E tools W maxLoops (Suc i) (addValidItems newContext st1)) \<and>
         contextItems (addValidItems newContext st1) =
           contextItems st1 @ filter (\<lambda>c. title c \<noteq> Some ''TOOLCONTEXT'') newContext \<and>
         ((\<forall>c\<in>set newContext. title c = Some ''TOOLCONTEXT'') \<longrightarrow>
            addValidItems newContext st1 = st1) \<and>
         contextItems st1 =
           contextItems (reflect E (reflectNames E (chat (turns W i))) st) \<and>
         contextItems st1 =
           (if reflectNames E (chat (turns W i)) = [] \<or> contextItems st = [] \<or>
               reviewed E (reflectNames E (chat (turns W i)))
                 (contextItems st @
                  concat (map (\<lambda>m. case m of Some fs \<Rightarrow> rev fs | None \<Rightarrow> [])
                            (dehydratedMessages E))) = []
            then contextItems st
            else reviewed E (reflectNames E (chat (turns W i)))
                   (contextItems st @
                    concat (map (\<lambda>m. case m of Some fs \<Rightarrow> rev fs | None \<Rightarrow> [])
                              (dehydratedMessages E))) @
                 filter (\<lambda>c. isUserAddedItem E c \<or> itemType c = ''media'') (contextItems st))"
proof -
  have "(\<forall>c\<in>set newContext. title c = Some ''TOOLCONTEXT'') \<Longrightarrow>
      filter (\<lambda>c. title c \<noteq> Some ''TOOLCONTEXT'') newContext = []"
    by (simp add: filter_empty_conv)
  then have a: "(\<forall>c\<in>set newContext. title c = Some ''TOOLCONTEXT'') \<Longrightarrow>
      addValidItems newContext st1 = st1"
    by (simp add: addValidItems_def Let_def)
  have b: "contextItems (addValidItems newContext st1) =
           contextItems st1 @ filter (\<lambda>c. title c \<noteq> Some ''TOOLCONTEXT'') newContext"
    by (simp add: addValidItems_def Let_def)
  have "contextItems st1 =
      contextItems (reflect E (reflectNames E (chat (turns W i)))
        (st\<lparr>statsLoop := statsLoop st + 1\<rparr>))"
    using review_context [of E tools "turns W i" "st\<lparr>statsLoop := statsLoop st + 1\<rparr>"] assms(3)
    by simp
  also have "\<dots> = contextItems (reflect E (reflectNames E (chat (turns W i))) st)"
    by (rule reflect_context_cong) simp
  finally have c: "contextItems st1 =
      contextItems (reflect E (reflectNames E (chat (turns W i))) st)" .
  have d: "contextItems st1 =
           (if reflectNames E (chat (turns W i)) = [] \<or> contextItems st = [] \<or>
               reviewed E (reflectNames E (chat (turns W i)))
                 (contextItems st @
                  concat (map (\<lambda>m. case m of Some fs \<Rightarrow> rev fs | None \<Rightarrow> [])
                            (dehydratedMessages E))) = []
            then contextItems st
            else reviewed E (reflectNames E (chat (turns W i)))
                   (contextItems st @
                    concat (map (\<lambda>m. case m of Some fs \<Rightarrow> rev fs | None \<Rightarrow> [])
                              (dehydratedMessages E))) @
                 filter (\<lambda>c. isUserAddedItem E c \<or> itemType c = ''media'') (contextItems st))"
    unfolding c by (rule reflect_context)
  from a b c d reviewLoop_step [OF assms] show ?thesis by blast
qed

text \<open>
  An iteration whose tools return only items titled \<open>TOOLCONTEXT\<close> does not always leave
  the working context unchanged: in the first turn of this run the search tool returns
  one such item and the response names the context \<open>a.ts\<close>, so the reflection step of
  that iteration replaces the item found by search with its agentic copy, although
  nothing of the batch is added. The batch is not empty and the loop goes on to a second
  iteration.
\<close>

theorem toolcontext_context_counterexample:
  "fst (review exCollaborators exTools (turns exToolContextReflectWorld 0)
          ((newAgent exTools)\<lparr>contextItems := exContext, statsLoop := 1\<rparr>)) =
     [exItem ''/tool/output'' Search (Some ''TOOLCONTEXT'')] \<and>
   contextItems
     (addValidItems
        (fst (review exCollaborators exTools (turns exToolContextReflectWorld 0)
                ((newAgent exTools)\<lparr>contextItems := exContext, statsLoop := 1\<rparr>)))
        (snd (review exCollaborators exTools (turns exToolContextReflectWorld 0)
                ((newAgent exTools)\<lparr>contextItems := exContext, statsLoop := 1\<rparr>)))) =
     [exItem ''/src/a.ts'' Agentic None, exItem ''/notes/todo.md'' User None] \<and>
   [exItem ''/src/a.ts'' Agentic None, exItem ''/notes/todo.md'' User None] \<noteq> exContext \<and>
   statsLoop (reviewLoop exCollaborators exTools exToolContextReflectWorld 3 0
       ((newAgent exTools)\<lparr>contextItems := exContext\<rparr>)) = 2 \<and>
   contextItems (reviewLoop exCollaborators exTools exToolContextReflectWorld 3 0
       ((newAgent exTools)\<lparr>contextItems := exContext\<rparr>)) =
     [exItem ''/src/a.ts'' Agentic None, exItem ''/notes/todo.md'' User None]"
  by code_simp

theorem toolcontext_not_appended_witness:
  "fst (review exCollaborators exTools (turns exToolContextWorld 0)
          ((newAgent exTools)\<lparr>contextItems := exContext, statsLoop := 1\<rparr>)) =
     [exItem ''/tool/output'' Search (Some ''TOOLCONTEXT'')] \<and>
   reviewLoop exCollaborators exTools exToolContextWorld 3 0
       ((newAgent exTools)\<lparr>contextItems := exContext\<rparr>) =
     reviewLoop exCollaborators exTools exToolContextWorld 3 (Suc 0)
       (snd (review exCollaborators exTools (turns exToolContextWorld 0)
          ((newAgent exTools)\<lparr>contextItems := exContext, statsLoop := 1\<rparr>))) \<and>
   contextItems (reviewLoop exCollaborators exTools exToolContextWorld 3 0
       ((newAgent exTools)\<lparr>contextItems := exContext\<rparr>)) = exContext \<and>
   statsLoop (reviewLoop exCollaborators exTools exToolContextWorld 3 0
       ((newAgent exTools)\<lparr>contextItems := exContext\<rparr>)) = 2"
proof -
  define s0 where "s0 = (newAgent exTools)\<lparr>contextItems := exContext\<rparr>"
  define r where "r = review exCollaborators exTools (turns exToolContextWorld 0)
          (s0\<lparr>statsLoop := statsLoop s0 + 1\<rparr>)"
  have s1: "s0\<lparr>statsLoop := statsLoop s0 + 1\<rparr> =
      (newAgent exTools)\<lparr>contextItems := exContext, statsLoop := 1\<rparr>"
    unfolding s0_def by code_simp
  have h1: "(0::nat) < 3" by simp
  have h2: "\<not> abortedAtLoop exToolContextWorld 0"
    by (simp add: exToolContextWorld_def exWorld_def)
  have h3: "review exCollaborators exTools (turns exToolContextWorld 0)
          (s0\<lparr>statsLoop := statsLoop s0 + 1\<rparr>) = (fst r, snd r)"
    by (simp add: r_def)
  have f: "fst r = [exItem ''/tool/output'' Search (Some ''TOOLCONTEXT'')]"
    unfolding r_def s1 by code_simp
  have nu: "\<not> list_all (isUserAddedItem exCollaborators) (fst r)"
    unfolding f by code_simp
  have tc: "\<forall>c\<in>set (fst r). title c = Some ''TOOLCONTEXT''"
    unfolding f by (simp add: exItem_def)
  have c: "contextItems (reviewLoop exCollaborators exTools exToolContextWorld 3 0 s0) = exContext"
    unfolding s0_def by code_simp
  have l: "statsLoop (reviewLoop exCollaborators exTools exToolContextWorld 3 0 s0) = 2"
    unfolding s0_def by code_simp
  from toolcontext_not_appended [OF h1 h2 h3] f nu tc
  have "reviewLoop exCollaborators exTools exToolContextWorld 3 0 s0 =
     reviewLoop exCollaborators exTools exToolContextWorld 3 (Suc 0) (snd r)"
    by simp
  moreover have "statsLoop (newAgent exTools) = 0" by code_simp
  ultimately show ?thesis using f c l unfolding r_def s0_def by simp
qed

end
